theory Spec2Isabelle
  imports Complex_Main "HOL-Library.Log_Nat"
begin

section \<open>Data model\<close>

text \<open>
  The remote directory (the Helki client) hands out plain JSON objects. A Device carries
  \<open>dev_id\<close>, \<open>name\<close> and \<open>product_id\<close>; a Node carries \<open>uid\<close> and \<open>name\<close>, either of
  which may be \<open>undefined\<close> (the platform's own comment says so), hence the options.
  What \<open>getGroupedDevices\<close> returns is a list of objects with a \<open>name\<close> and a list
  \<open>devs\<close>; the platform calls that list \<open>groups\<close> and looks the configured home up in
  it. The field \<open>name\<close> occurs in three of the objects, so the fields carry the object
  as a prefix here.
\<close>

record Device =
  dev_id :: string
  dev_name :: string
  product_id :: string

record Node =
  uid :: "string option"
  node_name :: "string option"

record Group =
  group_name :: string
  devs :: "Device list"

text \<open>
  A \<open>PlatformAccessory\<close> as far as the plugin reads and writes it: its \<open>UUID\<close>, its
  \<open>displayName\<close> and the three entries the plugin keeps in \<open>context\<close>.
\<close>

record PlatformAccessory =
  UUID :: string
  displayName :: string
  ctx_device :: Device
  ctx_node :: Node
  ctx_home :: string

text \<open>
  A thrown value is either an instance of \<open>Error\<close> (its \<open>name\<close> and \<open>message\<close>) or
  anything else (given by its string conversion). \<open>toString\<close> is what a template
  literal makes of it: \<open>Error.prototype.toString\<close> for an instance.
\<close>

datatype thrown = ErrorInstance string string | NonError string

fun toString :: "thrown \<Rightarrow> string" where
  "toString (ErrorInstance n m) =
     (if n = [] then m else if m = [] then n else n @ '': '' @ m)"
| "toString (NonError s) = s"

datatype level = Debug | Info | Warn | Error

datatype log_arg = S string | E thrown

text \<open>
  Everything a pass does to the outside, in the order it does it: the calls to the
  remote client, the calls to the host API, the controllers it constructs and the lines
  it logs. A call is recorded when it is made, whether it then throws or not.
\<close>

datatype event =
    NewHelkiClient
  | GetGroupedDevices
  | GetNodes string
  | Log level "log_arg list"
  | NewPlatformAccessory string string
  | NewRadiator PlatformAccessory
  | RegisterPlatformAccessories PlatformAccessory
  | UpdatePlatformAccessories PlatformAccessory
  | UnregisterPlatformAccessories PlatformAccessory

text \<open>
  The collaborators of the platform, as the values their calls produce: a result for the
  two remote fetches, the host's UUID generator, and for every other call whether it
  throws (\<open>None\<close>: it returns normally).
\<close>

record env =
  newHelkiClient :: "thrown option"
  getGroupedDevices :: "thrown + Group list"
  getNodes :: "string \<Rightarrow> thrown + Node list"
  generate :: "string \<Rightarrow> string"
  platformAccessory :: "string \<Rightarrow> string \<Rightarrow> thrown option"
  newRadiator :: "PlatformAccessory \<Rightarrow> thrown option"
  registerPlatformAccessories :: "PlatformAccessory \<Rightarrow> thrown option"
  updatePlatformAccessories :: "PlatformAccessory \<Rightarrow> thrown option"
  unregisterPlatformAccessories :: "PlatformAccessory \<Rightarrow> thrown option"

text \<open>
  The platform object: \<open>this.accessories\<close>, and the trace of what it has done so far.
\<close>

record platform =
  accessories :: "PlatformAccessory list"
  trace :: "event list"

text \<open>
  A step of the pass either completes with the platform as it left it (\<open>Inr\<close>) or
  throws, with the platform as it was when the exception left the step (\<open>Inl\<close>).
\<close>

type_synonym step = "thrown \<times> platform + platform"

definition emit :: "event \<Rightarrow> platform \<Rightarrow> platform" where
  "emit ev st = st\<lparr>trace := trace st @ [ev]\<rparr>"

definition call :: "thrown option \<Rightarrow> platform \<Rightarrow> step" where
  "call r st = (case r of None \<Rightarrow> Inr st | Some error \<Rightarrow> Inl (error, st))"

definition andThen :: "step \<Rightarrow> (platform \<Rightarrow> step) \<Rightarrow> step" where
  "andThen r f = (case r of Inl x \<Rightarrow> Inl x | Inr st \<Rightarrow> f st)"

section \<open>The platform\<close>

subsection \<open>configureAccessory\<close>


subsection \<open>Identity of a node\<close>

text \<open>
  \<open>a || b\<close> on a possibly undefined string \<open>a\<close>: \<open>b\<close> when \<open>a\<close> is falsy, that is
  \<open>undefined\<close> or the empty string.
\<close>

definition js_or :: "string option \<Rightarrow> string \<Rightarrow> string" where
  "js_or a b = (case a of None \<Rightarrow> b | Some s \<Rightarrow> if s = [] then b else s)"

definition accessoryName :: "Node \<Rightarrow> Device \<Rightarrow> string" where
  "accessoryName node device = js_or (node_name node) (dev_name device)"

definition accessoryUUID :: "(string \<Rightarrow> string) \<Rightarrow> Node \<Rightarrow> Device \<Rightarrow> string" where
  "accessoryUUID gen node device = gen (js_or (uid node) (dev_id device))"

subsection \<open>One node of a discovery pass\<close>

text \<open>
  Assigning \<open>existingAccessory.displayName\<close> writes to the object that
  \<open>this.accessories.find\<close> returned: the first of the list with that UUID.
\<close>

fun renameFirst :: "string \<Rightarrow> string \<Rightarrow> PlatformAccessory list \<Rightarrow> PlatformAccessory list" where
  "renameFirst u n [] = []"
| "renameFirst u n (a # as) =
     (if UUID a = u then a\<lparr>displayName := n\<rparr> # as else a # renameFirst u n as)"

definition removeExisting :: "env \<Rightarrow> Group \<Rightarrow> PlatformAccessory \<Rightarrow> platform \<Rightarrow> step" where
  "removeExisting e home existingAccessory st =
     (let st1 = emit (Log Warn [S (''Removing accessory that does not match configured home ''
                  @ [CHR 0x22] @ group_name home @ '': '' @ displayName existingAccessory
                  @ [CHR 0x22])]) st;
          st2 = emit (UnregisterPlatformAccessories existingAccessory) st1
      in case unregisterPlatformAccessories e existingAccessory of
           None \<Rightarrow> Inr st2
         | Some error \<Rightarrow>
             Inr (emit (Log Warn [S (''existing accessory: '' @ toString error)]) st2))"

definition bindExisting :: "env \<Rightarrow> PlatformAccessory \<Rightarrow> platform \<Rightarrow> step" where
  "bindExisting e existingAccessory st =
     (let st1 = emit (Log Info [S ''Restoring existing accessory from cache:'',
                                S (displayName existingAccessory)]) st;
          st2 = emit (NewRadiator existingAccessory) st1
      in call (newRadiator e existingAccessory) st2)"

definition restoreExisting :: "env \<Rightarrow> string \<Rightarrow> PlatformAccessory \<Rightarrow> platform \<Rightarrow> step" where
  "restoreExisting e name existingAccessory st =
     (if displayName existingAccessory \<noteq> name then
        (let st1 = emit (Log Info [S (''Renaming accessory from ''
                      @ displayName existingAccessory @ '' to '' @ name)]) st;
             renamed = existingAccessory\<lparr>displayName := name\<rparr>;
             st2 = st1\<lparr>accessories :=
                      renameFirst (UUID existingAccessory) name (accessories st1)\<rparr>;
             st3 = emit (UpdatePlatformAccessories renamed) st2
         in andThen (call (updatePlatformAccessories e renamed) st3) (bindExisting e renamed))
      else bindExisting e existingAccessory st)"

definition addAccessory :: "env \<Rightarrow> string \<Rightarrow> PlatformAccessory \<Rightarrow> platform \<Rightarrow> step" where
  "addAccessory e name accessory st =
     (let st1 = emit (Log Info [S ''Adding new accessory:'', S name]) st;
          st2 = emit (NewRadiator accessory) st1
      in andThen (call (newRadiator e accessory) st2)
           (\<lambda>st3. call (registerPlatformAccessories e accessory)
                     (emit (RegisterPlatformAccessories accessory) st3)))"

definition createNew ::
  "env \<Rightarrow> Group option \<Rightarrow> Group \<Rightarrow> Device \<Rightarrow> Node \<Rightarrow> string \<Rightarrow> string \<Rightarrow> platform \<Rightarrow> step" where
  "createNew e home grp device node name uuid st =
     andThen (call (platformAccessory e name uuid) (emit (NewPlatformAccessory name uuid) st))
       (\<lambda>st1.
          let accessory = \<lparr>UUID = uuid, displayName = name, ctx_device = device,
                           ctx_node = node, ctx_home = group_name grp\<rparr>
          in andThen
               (case home of
                  Some h \<Rightarrow> if group_name h = group_name grp
                            then addAccessory e name accessory st1 else Inr st1
                | None \<Rightarrow> Inr st1)
               (\<lambda>st2. case home of
                         None \<Rightarrow> addAccessory e name accessory st2
                       | Some h \<Rightarrow> Inr st2))"

definition reconcileNode ::
  "env \<Rightarrow> Group option \<Rightarrow> Group \<Rightarrow> Device \<Rightarrow> platform \<Rightarrow> Node \<Rightarrow> step" where
  "reconcileNode e home grp device st node =
     (let name = accessoryName node device;
          uuid = accessoryUUID (generate e) node device
      in case find (\<lambda>accessory. UUID accessory = uuid) (accessories st) of
           Some existingAccessory \<Rightarrow>
             (case home of
                Some h \<Rightarrow>
                  if ctx_home existingAccessory \<noteq> group_name h
                  then removeExisting e h existingAccessory st
                  else restoreExisting e name existingAccessory st
              | None \<Rightarrow> restoreExisting e name existingAccessory st)
         | None \<Rightarrow> createNew e home grp device node name uuid st)"

subsection \<open>The loops and the pass\<close>

fun forNodes :: "env \<Rightarrow> Group option \<Rightarrow> Group \<Rightarrow> Device \<Rightarrow> platform \<Rightarrow> Node list \<Rightarrow> step" where
  "forNodes e home grp device st [] = Inr st"
| "forNodes e home grp device st (node # nodes) =
     andThen (reconcileNode e home grp device st node)
       (\<lambda>st'. forNodes e home grp device st' nodes)"

definition forDevice :: "env \<Rightarrow> Group option \<Rightarrow> Group \<Rightarrow> platform \<Rightarrow> Device \<Rightarrow> step" where
  "forDevice e home grp st device =
     (let st1 = emit (GetNodes (dev_id device)) st
      in case getNodes e (dev_id device) of
           Inl error \<Rightarrow> Inl (error, st1)
         | Inr nodes \<Rightarrow>
             if length nodes = 0
             then Inr (emit (Log Warn [S (''No nodes found for device: '' @ dev_name device)]) st1)
             else forNodes e home grp device st1 nodes)"

fun forDevices :: "env \<Rightarrow> Group option \<Rightarrow> Group \<Rightarrow> platform \<Rightarrow> Device list \<Rightarrow> step" where
  "forDevices e home grp st [] = Inr st"
| "forDevices e home grp st (device # devices) =
     andThen (forDevice e home grp st device)
       (\<lambda>st'. forDevices e home grp st' devices)"

fun forGroups :: "env \<Rightarrow> Group option \<Rightarrow> platform \<Rightarrow> Group list \<Rightarrow> step" where
  "forGroups e home st [] = Inr st"
| "forGroups e home st (grp # groups) =
     andThen (forDevices e home grp st (devs grp))
       (\<lambda>st'. forGroups e home st' groups)"

text \<open>
  \<open>groups.find(home => home.name === this.config.home)\<close>: the configured home may be
  unset, and then no name is identical to it.
\<close>

definition findHome :: "string option \<Rightarrow> Group list \<Rightarrow> Group option" where
  "findHome config_home groups =
     (case config_home of
        None \<Rightarrow> None
      | Some h \<Rightarrow> find (\<lambda>home. group_name home = h) groups)"

definition discoverBody :: "env \<Rightarrow> string option \<Rightarrow> platform \<Rightarrow> step" where
  "discoverBody e config_home st =
     andThen (call (newHelkiClient e) (emit NewHelkiClient st))
       (\<lambda>st1. let st2 = emit GetGroupedDevices st1
              in case getGroupedDevices e of
                   Inl error \<Rightarrow> Inl (error, st2)
                 | Inr groups \<Rightarrow> forGroups e (findHome config_home groups) st2 groups)"

text \<open>
  How the promise of the async function settles. The body is one \<open>try\<close> block whose
  \<open>catch\<close> logs: the message of an \<open>Error\<close>, the string conversion of anything else.
\<close>

datatype completion = Resolved | Rejected thrown

fun failureLine :: "thrown \<Rightarrow> event" where
  "failureLine (ErrorInstance n m) = Log Error [S (''Failed to discover devices: '' @ m)]"
| "failureLine (NonError s) = Log Error [S (''Failed to discover devices: '' @ s)]"

definition discoverDevices :: "env \<Rightarrow> string option \<Rightarrow> platform \<Rightarrow> completion \<times> platform" where
  "discoverDevices e config_home st =
     (case discoverBody e config_home st of
        Inr st' \<Rightarrow> (Resolved, st')
      | Inl (error, st') \<Rightarrow> (Resolved, emit (failureLine error) st'))"

section \<open>Numbers of the runtime\<close>

text \<open>
  A Number is a binary64 value, given here by the rational it denotes, or one of the
  three values that denote none. Negative zero is not told apart from zero: nothing in
  the plugin separates them.
\<close>

datatype js_number = Num rat | NaN | Infinity | NegInfinity

definition pow2 :: "int \<Rightarrow> rat" where
  "pow2 k = (if 0 \<le> k then 2 ^ nat k else 1 / 2 ^ nat (- k))"

definition pow10 :: "int \<Rightarrow> rat" where
  "pow10 k = (if 0 \<le> k then 10 ^ nat k else 1 / 10 ^ nat (- k))"

text \<open>The exponent \<open>k\<close> with \<open>2 ^ k \<le> q < 2 ^ (k + 1)\<close>, for a positive \<open>q\<close>.\<close>

definition ilog2 :: "rat \<Rightarrow> int" where
  "ilog2 q =
     (let d = bitlen (fst (quotient_of q)) - bitlen (snd (quotient_of q))
      in if pow2 d \<le> q then d else d - 1)"

definition roundTiesToEven :: "rat \<Rightarrow> int" where
  "roundTiesToEven x =
     (let f = \<lfloor>x\<rfloor>; d = x - of_int f
      in if d < 1 / 2 then f else if 1 / 2 < d then f + 1
         else if even f then f else f + 1)"

text \<open>
  The Number value for a real: the nearest binary64 value, ties to the even significand,
  subnormal below \<open>2 ^ - 1022\<close>, infinite from \<open>2 ^ 1024\<close> on.
\<close>

definition toDouble :: "rat \<Rightarrow> js_number" where
  "toDouble q =
     (if q = 0 then Num 0
      else let a = \<bar>q\<bar>;
               k = max (ilog2 a) (- 1022);
               ulp = pow2 (k - 52);
               v = of_int (roundTiesToEven (a / ulp)) * ulp
           in if pow2 1024 \<le> v then (if q < 0 then NegInfinity else Infinity)
              else Num (if q < 0 then - v else v))"

subsection \<open>parseFloat\<close>

text \<open>
  \<open>parseFloat\<close> drops leading white space and reads the longest prefix that is a
  \<open>StrDecimalLiteral\<close>: a sign, then \<open>Infinity\<close> or digits with an optional fraction
  and an optional exponent; the result is \<open>NaN\<close> when there is no such prefix. Strings
  are taken as sequences of code units below 256, so the white space recognised is the
  one in that range: TAB, LF, VT, FF, CR, space and the no-break space.
\<close>

definition isDigit :: "char \<Rightarrow> bool" where
  "isDigit c = (48 \<le> (of_char c :: nat) \<and> (of_char c :: nat) \<le> 57)"

definition isWhiteSpace :: "char \<Rightarrow> bool" where
  "isWhiteSpace c =
     ((of_char c :: nat) = 32 \<or> (of_char c :: nat) = 160
      \<or> (9 \<le> (of_char c :: nat) \<and> (of_char c :: nat) \<le> 13))"

definition decimalValue :: "string \<Rightarrow> nat" where
  "decimalValue ds = foldl (\<lambda>n c. 10 * n + ((of_char c :: nat) - 48)) 0 ds"

definition signedInteger :: "string \<Rightarrow> int option" where
  "signedInteger s =
     (case s of
        [] \<Rightarrow> None
      | c # r \<Rightarrow>
          if c = CHR ''+'' then
            (if takeWhile isDigit r = [] then None
             else Some (int (decimalValue (takeWhile isDigit r))))
          else if c = CHR ''-'' then
            (if takeWhile isDigit r = [] then None
             else Some (- int (decimalValue (takeWhile isDigit r))))
          else if takeWhile isDigit s = [] then None
          else Some (int (decimalValue (takeWhile isDigit s))))"

definition exponentPart :: "string \<Rightarrow> int" where
  "exponentPart s =
     (case s of
        [] \<Rightarrow> 0
      | c # r \<Rightarrow>
          if c = CHR ''e'' \<or> c = CHR ''E''
          then (case signedInteger r of None \<Rightarrow> 0 | Some k \<Rightarrow> k)
          else 0)"

definition strUnsignedDecimalLiteral :: "string \<Rightarrow> js_number option" where
  "strUnsignedDecimalLiteral s =
     (if take 8 s = ''Infinity'' then Some Infinity
      else let ip = takeWhile isDigit s; r1 = dropWhile isDigit s
           in case r1 of
                [] \<Rightarrow> if ip = [] then None else Some (Num (of_nat (decimalValue ip)))
              | c # r2 \<Rightarrow>
                  if c = CHR ''.'' then
                    (let fp = takeWhile isDigit r2; r3 = dropWhile isDigit r2
                     in if ip = [] \<and> fp = [] then None
                        else Some (Num (of_nat (decimalValue (ip @ fp))
                                         * pow10 (exponentPart r3 - int (length fp)))))
                  else if ip = [] then None
                  else Some (Num (of_nat (decimalValue ip) * pow10 (exponentPart r1))))"

fun rounded :: "bool \<Rightarrow> js_number option \<Rightarrow> js_number" where
  "rounded negative None = NaN"
| "rounded negative (Some (Num q)) = toDouble (if negative then - q else q)"
| "rounded negative (Some Infinity) = (if negative then NegInfinity else Infinity)"
| "rounded negative (Some x) = x"

definition parseFloat :: "string \<Rightarrow> js_number" where
  "parseFloat s =
     (case dropWhile isWhiteSpace s of
        [] \<Rightarrow> NaN
      | c # r \<Rightarrow>
          if c = CHR ''+'' then rounded False (strUnsignedDecimalLiteral r)
          else if c = CHR ''-'' then rounded True (strUnsignedDecimalLiteral r)
          else rounded False (strUnsignedDecimalLiteral (c # r)))"

subsection \<open>toFixed\<close>

text \<open>
  \<open>x.toFixed(1)\<close>: the integer \<open>n\<close> nearest to ten times the magnitude (the larger of
  two equally near), written in decimal with at least two digits and a point before the
  last. From \<open>10 ^ 21\<close> on the result is the plain string conversion of the number,
  which is a parameter here.
\<close>

fun digitsOf :: "nat \<Rightarrow> string" where
  "digitsOf n =
     (if n < 10 then [char_of (48 + n)]
      else digitsOf (n div 10) @ [char_of (48 + n mod 10)])"

definition toFixed1 :: "(rat \<Rightarrow> string) \<Rightarrow> js_number \<Rightarrow> string" where
  "toFixed1 numberToString x =
     (case x of
        NaN \<Rightarrow> ''NaN''
      | Infinity \<Rightarrow> ''Infinity''
      | NegInfinity \<Rightarrow> ''-Infinity''
      | Num q \<Rightarrow>
          (let s = (if q < 0 then ''-'' else []);
               a = \<bar>q\<bar>
           in if 10 ^ 21 \<le> a then s @ numberToString a
              else let n = nat \<lfloor>a * 10 + 1 / 2\<rfloor>;
                       m = digitsOf n;
                       m' = (if length m \<le> 1 then ''0'' @ m else m)
                   in s @ butlast m' @ ''.'' @ [last m']))"

section \<open>The accessory controller\<close>

text \<open>
  The values of the two heating-cooling characteristics, as HAP numbers them.
\<close>

definition TargetHeatingCoolingState_OFF :: js_number where
  "TargetHeatingCoolingState_OFF = Num 0"

definition TargetHeatingCoolingState_HEAT :: js_number where
  "TargetHeatingCoolingState_HEAT = Num 1"

definition TargetHeatingCoolingState_AUTO :: js_number where
  "TargetHeatingCoolingState_AUTO = Num 3"

definition CurrentHeatingCoolingState_OFF :: js_number where
  "CurrentHeatingCoolingState_OFF = Num 0"

definition CurrentHeatingCoolingState_HEAT :: js_number where
  "CurrentHeatingCoolingState_HEAT = Num 1"

text \<open>The four characteristics of the Thermostat service that the controller updates.\<close>

record Thermostat =
  CurrentTemperature :: js_number
  TargetTemperature :: js_number
  TargetHeatingCoolingState :: js_number
  CurrentHeatingCoolingState :: js_number

record Status =
  mtemp :: string
  stemp :: string
  mode :: string
  active :: bool

record Radiator =
  r_accessory :: PlatformAccessory
  r_node :: Node
  r_service :: Thermostat

subsection \<open>onDeviceUpdate\<close>

definition updateTargetState :: "string \<Rightarrow> Thermostat \<Rightarrow> Thermostat" where
  "updateTargetState m svc =
     (if m = ''auto'' \<or> m = ''modified_auto''
      then svc\<lparr>TargetHeatingCoolingState := TargetHeatingCoolingState_AUTO\<rparr>
      else if m = ''manual''
      then svc\<lparr>TargetHeatingCoolingState := TargetHeatingCoolingState_HEAT\<rparr>
      else if m = ''off''
      then svc\<lparr>TargetHeatingCoolingState := TargetHeatingCoolingState_OFF\<rparr>
      else svc)"

definition onDeviceUpdate :: "Status \<Rightarrow> Radiator \<Rightarrow> Radiator" where
  "onDeviceUpdate status r =
     (let s1 = (r_service r)\<lparr>CurrentTemperature := parseFloat (mtemp status)\<rparr>;
          s2 = s1\<lparr>TargetTemperature := parseFloat (stemp status)\<rparr>;
          s3 = updateTargetState (mode status) s2;
          currentHeatingCoolingState =
            (if active status then CurrentHeatingCoolingState_HEAT
             else CurrentHeatingCoolingState_OFF)
      in r\<lparr>r_service := s3\<lparr>CurrentHeatingCoolingState := currentHeatingCoolingState\<rparr>\<rparr>)"

subsection \<open>The two write handlers\<close>

text \<open>
  A value written to a characteristic is a number or something else; of something else
  the handlers only ever use what \<open>Number(value)\<close> makes of it, which it carries here.
\<close>

datatype CharacteristicValue = VNumber js_number | VOther js_number

fun Number :: "CharacteristicValue \<Rightarrow> js_number" where
  "Number (VNumber x) = x"
| "Number (VOther x) = x"

text \<open>
  What a handler does to the outside: the command it sends (device id, node, and the
  fields of the object literal in the order written) and the line it logs.
\<close>

datatype action =
    SetStatus string Node "(string \<times> string) list"
  | LogError "log_arg list"

text \<open>Whether \<open>helkiClient.setStatus\<close> rejects, for each command.\<close>

type_synonym helkiClient = "string \<Rightarrow> Node \<Rightarrow> (string \<times> string) list \<Rightarrow> thrown option"

definition setTargetTemperature ::
  "(rat \<Rightarrow> string) \<Rightarrow> helkiClient \<Rightarrow> Radiator \<Rightarrow> CharacteristicValue
     \<Rightarrow> completion \<times> action list" where
  "setTargetTemperature numberToString setStatus r v =
     (let stemp = toFixed1 numberToString (Number v);
          fields = [(''stemp'', stemp), (''mode'', ''manual''), (''units'', ''C'')];
          device = dev_id (ctx_device (r_accessory r))
      in case setStatus device (r_node r) fields of
           None \<Rightarrow> (Resolved, [SetStatus device (r_node r) fields])
         | Some error \<Rightarrow>
             (Resolved, [SetStatus device (r_node r) fields,
                         LogError [S ''Failed to set target temperature:'', E error]]))"

definition modeOf :: "CharacteristicValue \<Rightarrow> string" where
  "modeOf v =
     (if v = VNumber TargetHeatingCoolingState_HEAT then ''manual''
      else if v = VNumber TargetHeatingCoolingState_AUTO then ''auto''
      else ''off'')"

definition setTargetHeatingCoolingState ::
  "helkiClient \<Rightarrow> Radiator \<Rightarrow> CharacteristicValue \<Rightarrow> completion \<times> action list" where
  "setTargetHeatingCoolingState setStatus r v =
     (let m = modeOf v;
          fields = [(''mode'', m)];
          device = dev_id (ctx_device (r_accessory r))
      in case setStatus device (r_node r) fields of
           None \<Rightarrow> (Resolved, [SetStatus device (r_node r) fields])
         | Some error \<Rightarrow>
             (Resolved, [SetStatus device (r_node r) fields,
                         LogError [S ''Failed to set target heating/cooling state:'', E error]]))"

section \<open>Reading a trace\<close>

text \<open>
  The accessories a trace registers, renames (pushes to the host's persistence),
  removes and binds a controller to, in the order it does.
\<close>

fun registered :: "event \<Rightarrow> PlatformAccessory option" where
  "registered (RegisterPlatformAccessories a) = Some a"
| "registered ev = None"

fun renamed :: "event \<Rightarrow> PlatformAccessory option" where
  "renamed (UpdatePlatformAccessories a) = Some a"
| "renamed ev = None"

fun removed :: "event \<Rightarrow> PlatformAccessory option" where
  "removed (UnregisterPlatformAccessories a) = Some a"
| "removed ev = None"

fun bound :: "event \<Rightarrow> PlatformAccessory option" where
  "bound (NewRadiator a) = Some a"
| "bound ev = None"

definition registrations :: "event list \<Rightarrow> PlatformAccessory list" where
  "registrations evs = List.map_filter registered evs"

definition renames :: "event list \<Rightarrow> PlatformAccessory list" where
  "renames evs = List.map_filter renamed evs"

definition removals :: "event list \<Rightarrow> PlatformAccessory list" where
  "removals evs = List.map_filter removed evs"

definition bindings :: "event list \<Rightarrow> PlatformAccessory list" where
  "bindings evs = List.map_filter bound evs"

fun stateOf :: "step \<Rightarrow> platform" where
  "stateOf (Inl (error, st)) = st"
| "stateOf (Inr st) = st"

text \<open>The events that construct an accessory record.\<close>

fun constructed :: "event \<Rightarrow> bool" where
  "constructed (NewPlatformAccessory n u) = True"
| "constructed ev = False"

text \<open>An event that binds, registers, renames and removes nothing.\<close>

definition inert :: "event \<Rightarrow> bool" where
  "inert ev = (bound ev = None \<and> registered ev = None \<and> renamed ev = None \<and> removed ev = None)"

section \<open>Two passes\<close>





section \<open>The nodes a pass visits\<close>

text \<open>
  The nodes of a topology in the order the three loops reach them, each with its group
  and device, and what the pass derives from each: the UUID, the display name and the
  accessory record it would construct.
\<close>

type_synonym visit = "Group \<times> Device \<times> Node"

definition nodesOf :: "env \<Rightarrow> Device \<Rightarrow> Node list" where
  "nodesOf e device = (case getNodes e (dev_id device) of Inl error \<Rightarrow> [] | Inr nodes \<Rightarrow> nodes)"

definition visits :: "env \<Rightarrow> Group list \<Rightarrow> visit list" where
  "visits e groups =
     concat (map (\<lambda>grp. concat (map (\<lambda>device. map (\<lambda>node. (grp, device, node)) (nodesOf e device))
                                   (devs grp))) groups)"

fun uuidOf :: "env \<Rightarrow> visit \<Rightarrow> string" where
  "uuidOf e (grp, device, node) = accessoryUUID (generate e) node device"

fun nameOf :: "visit \<Rightarrow> string" where
  "nameOf (grp, device, node) = accessoryName node device"

fun newAccessory :: "env \<Rightarrow> visit \<Rightarrow> PlatformAccessory" where
  "newAccessory e (grp, device, node) =
     \<lparr>UUID = accessoryUUID (generate e) node device, displayName = accessoryName node device,
      ctx_device = device, ctx_node = node, ctx_home = group_name grp\<rparr>"

definition lookup :: "string \<Rightarrow> PlatformAccessory list \<Rightarrow> PlatformAccessory option" where
  "lookup u xs = find (\<lambda>accessory. UUID accessory = u) xs"

text \<open>
  The two tests of the home filter: an existing accessory is out of the configured home,
  and a group is one whose new accessories get registered.
\<close>

definition mismatch :: "Group option \<Rightarrow> PlatformAccessory \<Rightarrow> bool" where
  "mismatch home a = (case home of None \<Rightarrow> False | Some h \<Rightarrow> ctx_home a \<noteq> group_name h)"

definition admits :: "Group option \<Rightarrow> Group \<Rightarrow> bool" where
  "admits home grp = (case home of None \<Rightarrow> True | Some h \<Rightarrow> group_name h = group_name grp)"

text \<open>
  The three loops unrolled: when every node fetch succeeds, a pass is a sequence of
  fetches, warnings about devices without nodes, and nodes to reconcile.
\<close>

datatype item = Fetch Device | Skip Device | Visit Group Device Node

fun runItem :: "env \<Rightarrow> Group option \<Rightarrow> platform \<Rightarrow> item \<Rightarrow> step" where
  "runItem e home st (Fetch device) = Inr (emit (GetNodes (dev_id device)) st)"
| "runItem e home st (Skip device) =
     Inr (emit (Log Warn [S (''No nodes found for device: '' @ dev_name device)]) st)"
| "runItem e home st (Visit grp device node) = reconcileNode e home grp device st node"

fun runItems :: "env \<Rightarrow> Group option \<Rightarrow> platform \<Rightarrow> item list \<Rightarrow> step" where
  "runItems e home st [] = Inr st"
| "runItems e home st (x # xs) = andThen (runItem e home st x) (\<lambda>st'. runItems e home st' xs)"

definition deviceItems :: "env \<Rightarrow> Group \<Rightarrow> Device \<Rightarrow> item list" where
  "deviceItems e grp device =
     Fetch device # (if nodesOf e device = [] then [Skip device]
                     else map (Visit grp device) (nodesOf e device))"

definition passItems :: "env \<Rightarrow> Group list \<Rightarrow> item list" where
  "passItems e groups = concat (map (\<lambda>grp. concat (map (deviceItems e grp) (devs grp))) groups)"

fun visitOf :: "item \<Rightarrow> visit list" where
  "visitOf (Visit grp device node) = [(grp, device, node)]"
| "visitOf x = []"

definition visited :: "item list \<Rightarrow> visit list" where
  "visited xs = concat (map visitOf xs)"

text \<open>No call to the host fails.\<close>

definition dependable :: "env \<Rightarrow> bool" where
  "dependable e =
     ((\<forall>n u. platformAccessory e n u = None) \<and> (\<forall>a. newRadiator e a = None)
      \<and> (\<forall>a. registerPlatformAccessories e a = None)
      \<and> (\<forall>a. updatePlatformAccessories e a = None)
      \<and> (\<forall>a. unregisterPlatformAccessories e a = None))"

text \<open>
  What a pass that started from the list \<open>L\<close> has done once it has been through the
  visits \<open>pre\<close>: the list has kept its UUIDs and homes, the accessories registered are
  the new ones of admitted groups, the accessories removed are those out of the home,
  and every other accessory visited carries the name of its node.
\<close>

definition fresh :: "env \<Rightarrow> Group option \<Rightarrow> PlatformAccessory list \<Rightarrow> visit \<Rightarrow> bool" where
  "fresh e home L v = (lookup (uuidOf e v) L = None \<and> admits home (fst v))"

definition stale :: "env \<Rightarrow> Group option \<Rightarrow> PlatformAccessory list \<Rightarrow> visit \<Rightarrow> bool" where
  "stale e home L v = (case lookup (uuidOf e v) L of None \<Rightarrow> False | Some a \<Rightarrow> mismatch home a)"

definition kept :: "env \<Rightarrow> Group option \<Rightarrow> PlatformAccessory list \<Rightarrow> visit \<Rightarrow> bool" where
  "kept e home L v = (case lookup (uuidOf e v) L of None \<Rightarrow> False | Some a \<Rightarrow> \<not> mismatch home a)"

definition named :: "env \<Rightarrow> PlatformAccessory list \<Rightarrow> visit \<Rightarrow> bool" where
  "named e L v =
     (case lookup (uuidOf e v) L of None \<Rightarrow> False | Some a \<Rightarrow> displayName a = nameOf v)"

definition reconciled ::
  "env \<Rightarrow> Group option \<Rightarrow> PlatformAccessory list \<Rightarrow> visit list \<Rightarrow> platform \<Rightarrow> bool" where
  "reconciled e home L pre st =
     (map UUID (accessories st) = map UUID L
      \<and> map ctx_home (accessories st) = map ctx_home L
      \<and> registrations (trace st) = map (newAccessory e) (filter (fresh e home L) pre)
      \<and> map UUID (removals (trace st)) = map (uuidOf e) (filter (stale e home L) pre)
      \<and> (\<forall>v \<in> set pre. kept e home L v \<longrightarrow> named e (accessories st) v))"



text \<open>
  What a pass that meets no failure does at one visit, read off the list \<open>L\<close> it started
  from: the accessory it removes, the record it constructs and the accessory it binds a
  controller to. \<open>followed\<close> says that a pass has done exactly that for the visits
  \<open>pre\<close> and has not touched the accessories of the other UUIDs.
\<close>

definition removalsAt :: "env \<Rightarrow> Group option \<Rightarrow> PlatformAccessory list \<Rightarrow> visit \<Rightarrow> PlatformAccessory list" where
  "removalsAt e home L v =
     (case lookup (uuidOf e v) L of
        None \<Rightarrow> []
      | Some a \<Rightarrow> if mismatch home a then [a] else [])"

definition constructionsAt :: "env \<Rightarrow> PlatformAccessory list \<Rightarrow> visit \<Rightarrow> event list" where
  "constructionsAt e L v =
     (case lookup (uuidOf e v) L of
        None \<Rightarrow> [NewPlatformAccessory (nameOf v) (uuidOf e v)]
      | Some a \<Rightarrow> [])"

definition bindingsAt :: "env \<Rightarrow> Group option \<Rightarrow> PlatformAccessory list \<Rightarrow> visit \<Rightarrow> PlatformAccessory list" where
  "bindingsAt e home L v =
     (case lookup (uuidOf e v) L of
        None \<Rightarrow> if admits home (fst v) then [newAccessory e v] else []
      | Some a \<Rightarrow> if mismatch home a then [] else [a\<lparr>displayName := nameOf v\<rparr>])"

definition followed ::
  "env \<Rightarrow> Group option \<Rightarrow> PlatformAccessory list \<Rightarrow> visit list \<Rightarrow> platform \<Rightarrow> bool" where
  "followed e home L pre st =
     ((\<forall>u. u \<notin> set (map (uuidOf e) pre) \<longrightarrow> lookup u (accessories st) = lookup u L)
      \<and> removals (trace st) = concat (map (removalsAt e home L) pre)
      \<and> filter constructed (trace st) = concat (map (constructionsAt e L) pre)
      \<and> bindings (trace st) = concat (map (bindingsAt e home L) pre))"

section \<open>Sample data\<close>

definition hall :: Node where
  "hall = \<lparr>uid = Some ''n1'', node_name = Some ''Hall''\<rparr>"

definition heater :: Device where
  "heater = \<lparr>dev_id = ''d1'', dev_name = ''Heater'', product_id = ''p1''\<rparr>"

definition homeA :: Group where
  "homeA = \<lparr>group_name = ''A'', devs = [heater]\<rparr>"

definition homeB :: Group where
  "homeB = \<lparr>group_name = ''B'', devs = []\<rparr>"

definition cached :: PlatformAccessory where
  "cached = \<lparr>UUID = ''n1'', displayName = ''Landing'', ctx_device = heater,
             ctx_node = hall, ctx_home = ''A''\<rparr>"

text \<open>Collaborators none of whose calls fail; the UUID generator is the identity.\<close>

definition reliable :: env where
  "reliable = \<lparr>newHelkiClient = None, getGroupedDevices = Inr [homeA],
               getNodes = (\<lambda>d. Inr [hall]), generate = id,
               platformAccessory = (\<lambda>n u. None), newRadiator = (\<lambda>a. None),
               registerPlatformAccessories = (\<lambda>a. None),
               updatePlatformAccessories = (\<lambda>a. None),
               unregisterPlatformAccessories = (\<lambda>a. None)\<rparr>"

definition timeout :: thrown where
  "timeout = ErrorInstance ''Error'' ''timeout''"

definition idle :: Thermostat where
  "idle = \<lparr>CurrentTemperature = Num 18, TargetTemperature = Num 18,
           TargetHeatingCoolingState = TargetHeatingCoolingState_AUTO,
           CurrentHeatingCoolingState = CurrentHeatingCoolingState_OFF\<rparr>"

definition controller :: Radiator where
  "controller = \<lparr>r_accessory = cached, r_node = hall, r_service = idle\<rparr>"

definition towelRail :: Device where
  "towelRail = \<lparr>dev_id = ''d2'', dev_name = ''Towel rail'', product_id = ''p2''\<rparr>"

definition stove :: Device where
  "stove = \<lparr>dev_id = ''d3'', dev_name = ''Stove'', product_id = ''p3''\<rparr>"

definition bare :: Node where
  "bare = \<lparr>uid = None, node_name = None\<rparr>"

definition house :: "Group list" where
  "house = [\<lparr>group_name = ''A'', devs = [heater, towelRail]\<rparr>,
            \<lparr>group_name = ''B'', devs = [stove]\<rparr>]"

text \<open>
  A house with two homes: the heater has one node, the towel rail none, and the stove
  one node without \<open>uid\<close> and \<open>name\<close>.
\<close>

definition household :: env where
  "household = reliable\<lparr>getGroupedDevices := Inr house,
                 getNodes := (\<lambda>d. if d = ''d1'' then Inr [hall]
                                   else if d = ''d2'' then Inr [] else Inr [bare])\<rparr>"

definition cachedStove :: PlatformAccessory where
  "cachedStove = \<lparr>UUID = ''d3'', displayName = ''Stove'', ctx_device = stove,
                  ctx_node = bare, ctx_home = ''B''\<rparr>"


section \<open>Basic facts\<close>

lemma andThen_simps [simp]:
  "andThen (Inl x) f = Inl x" "andThen (Inr st) f = f st"
  by (simp_all add: andThen_def)

lemma call_simps [simp]:
  "call None st = Inr st" "call (Some error) st = Inl (error, st)"
  by (simp_all add: call_def)

lemma emit_simps [simp]:
  "accessories (emit ev st) = accessories st"
  "trace (emit ev st) = trace st @ [ev]"
  by (simp_all add: emit_def)

lemma projections_append [simp]:
  "registrations (xs @ ys) = registrations xs @ registrations ys"
  "renames (xs @ ys) = renames xs @ renames ys"
  "removals (xs @ ys) = removals xs @ removals ys"
  "bindings (xs @ ys) = bindings xs @ bindings ys"
  by (simp_all add: registrations_def renames_def removals_def bindings_def map_filter_def)

lemma projections_Nil [simp]:
  "registrations [] = []" "renames [] = []" "removals [] = []" "bindings [] = []"
  by (simp_all add: registrations_def renames_def removals_def bindings_def map_filter_def)

lemma projections_Cons [simp]:
  "registrations (ev # evs) = (case registered ev of None \<Rightarrow> [] | Some a \<Rightarrow> [a]) @ registrations evs"
  "renames (ev # evs) = (case renamed ev of None \<Rightarrow> [] | Some a \<Rightarrow> [a]) @ renames evs"
  "removals (ev # evs) = (case removed ev of None \<Rightarrow> [] | Some a \<Rightarrow> [a]) @ removals evs"
  "bindings (ev # evs) = (case bound ev of None \<Rightarrow> [] | Some a \<Rightarrow> [a]) @ bindings evs"
  by (simp_all add: registrations_def renames_def removals_def bindings_def map_filter_def
      split: option.splits)

lemma find_renameFirst:
  "find (\<lambda>a. UUID a = u) xs = Some x
   \<Longrightarrow> find (\<lambda>a. UUID a = u) (renameFirst u n xs) = Some (x\<lparr>displayName := n\<rparr>)"
  by (induction xs) (auto split: if_splits)

lemma length_renameFirst: "length (renameFirst u n xs) = length xs"
  by (induction xs) auto



section \<open>Identity of an accessory\<close>

text \<open>
  C10. The fallback from the node to the device goes by truthiness: a node whose \<open>uid\<close>
  is the empty string gets the UUID generated from the device's \<open>dev_id\<close>, and a node
  whose \<open>name\<close> is the empty string gets the device's name as display name.
\<close>

theorem accessory_identity_truthiness:
  "accessoryUUID gen (node\<lparr>uid := Some []\<rparr>) device = gen (dev_id device)
   \<and> accessoryName (node\<lparr>node_name := Some []\<rparr>) device = dev_name device"
  by (simp add: accessoryUUID_def accessoryName_def js_or_def)

text \<open>
  C1, as the spec words it, fails: a node whose \<open>uid\<close> is defined but empty gets a UUID
  that changes with the device's \<open>dev_id\<close>. Here the generator is the identity.
\<close>

theorem accessoryUUID_defined_uid_counterexample:
  "uid \<lparr>uid = Some [], node_name = Some ''Hall''\<rparr> \<noteq> None
   \<and> accessoryUUID id \<lparr>uid = Some [], node_name = Some ''Hall''\<rparr>
         \<lparr>dev_id = ''A'', dev_name = ''Radiator'', product_id = ''p''\<rparr>
     \<noteq> accessoryUUID id \<lparr>uid = Some [], node_name = Some ''Hall''\<rparr>
         \<lparr>dev_id = ''B'', dev_name = ''Radiator'', product_id = ''p''\<rparr>"
  by (simp add: accessoryUUID_def js_or_def)

text \<open>
  C1, amended. The UUID of a node is \<open>generate(node.uid || device.dev_id)\<close>. Two nodes
  with the same non-empty \<open>uid\<close> get the same UUID whatever their names and devices are,
  and two nodes without a \<open>uid\<close> get the same UUID when their devices have the same
  \<open>dev_id\<close>.
\<close>

theorem accessoryUUID_depends_on:
  "accessoryUUID gen node device = gen (js_or (uid node) (dev_id device))
   \<and> (uid node = Some u \<and> u \<noteq> [] \<and> uid node' = Some u
        \<longrightarrow> accessoryUUID gen node device = accessoryUUID gen node' device')
   \<and> (uid node = None \<and> uid node' = None \<and> dev_id device = dev_id device'
        \<longrightarrow> accessoryUUID gen node device = accessoryUUID gen node' device')"
  by (simp add: accessoryUUID_def js_or_def)

theorem accessoryUUID_depends_on_witness:
  "accessoryUUID id \<lparr>uid = Some ''n1'', node_name = Some ''Hall''\<rparr>
       \<lparr>dev_id = ''A'', dev_name = ''Radiator'', product_id = ''p''\<rparr>
     = accessoryUUID id \<lparr>uid = Some ''n1'', node_name = Some ''Lounge''\<rparr>
       \<lparr>dev_id = ''B'', dev_name = ''Heater'', product_id = ''q''\<rparr>
   \<and> accessoryUUID id \<lparr>uid = None, node_name = Some ''Hall''\<rparr>
       \<lparr>dev_id = ''A'', dev_name = ''Radiator'', product_id = ''p''\<rparr>
     = accessoryUUID id \<lparr>uid = None, node_name = Some ''Lounge''\<rparr>
       \<lparr>dev_id = ''A'', dev_name = ''Heater'', product_id = ''q''\<rparr>"
  using accessoryUUID_depends_on [of id "\<lparr>uid = Some ''n1'', node_name = Some ''Hall''\<rparr>"
      "\<lparr>dev_id = ''A'', dev_name = ''Radiator'', product_id = ''p''\<rparr>" "''n1''"
      "\<lparr>uid = Some ''n1'', node_name = Some ''Lounge''\<rparr>"
      "\<lparr>dev_id = ''B'', dev_name = ''Heater'', product_id = ''q''\<rparr>",
      THEN conjunct2, THEN conjunct1]
    accessoryUUID_depends_on [of id "\<lparr>uid = None, node_name = Some ''Hall''\<rparr>"
      "\<lparr>dev_id = ''A'', dev_name = ''Radiator'', product_id = ''p''\<rparr>" "''n1''"
      "\<lparr>uid = None, node_name = Some ''Lounge''\<rparr>"
      "\<lparr>dev_id = ''A'', dev_name = ''Heater'', product_id = ''q''\<rparr>",
      THEN conjunct2, THEN conjunct2]
  by simp

section \<open>The pass as a whole\<close>

text \<open>
  C7. The promise of \<open>discoverDevices\<close> always resolves. Whatever the body throws is
  caught by the outer \<open>catch\<close> and logged as an error; a failure to unregister is caught
  where it happens and logged as a warning, and the step goes on. If the topology fetch
  fails, the pass ends with the accessory list as it was, having made the two client
  calls and logged the failure: nothing registered, renamed or removed.
\<close>

theorem discoverDevices_never_rejects:
  "fst (discoverDevices e config_home st) = Resolved
   \<and> (discoverBody e config_home st = Inl (error, st')
        \<longrightarrow> snd (discoverDevices e config_home st) = emit (failureLine error) st')
   \<and> (unregisterPlatformAccessories e a = Some error
        \<longrightarrow> (\<exists>st'. removeExisting e h a st = Inr st'
              \<and> trace st' = trace st
                  @ [Log Warn [S (''Removing accessory that does not match configured home ''
                       @ [CHR 0x22] @ group_name h @ '': '' @ displayName a @ [CHR 0x22])],
                     UnregisterPlatformAccessories a,
                     Log Warn [S (''existing accessory: '' @ toString error)]]))
   \<and> (newHelkiClient e = None \<and> getGroupedDevices e = Inl error
        \<longrightarrow> snd (discoverDevices e config_home st)
            = st\<lparr>trace := trace st @ [NewHelkiClient, GetGroupedDevices, failureLine error]\<rparr>)"
  by (auto simp add: discoverDevices_def discoverBody_def removeExisting_def Let_def emit_def
      split: sum.splits prod.splits)

theorem discoverDevices_never_rejects_witness:
  "(newHelkiClient (reliable\<lparr>getGroupedDevices := Inl timeout\<rparr>) = None
      \<and> getGroupedDevices (reliable\<lparr>getGroupedDevices := Inl timeout\<rparr>) = Inl timeout)
   \<and> discoverBody (reliable\<lparr>getGroupedDevices := Inl timeout\<rparr>) (Some ''A'')
         \<lparr>accessories = [cached], trace = []\<rparr>
       = Inl (timeout, \<lparr>accessories = [cached], trace = [NewHelkiClient, GetGroupedDevices]\<rparr>)
   \<and> discoverDevices (reliable\<lparr>getGroupedDevices := Inl timeout\<rparr>) (Some ''A'')
         \<lparr>accessories = [cached], trace = []\<rparr>
       = (Resolved, \<lparr>accessories = [cached],
            trace = [NewHelkiClient, GetGroupedDevices,
                     Log Error [S ''Failed to discover devices: timeout'']]\<rparr>)
   \<and> unregisterPlatformAccessories (reliable\<lparr>unregisterPlatformAccessories := \<lambda>a. Some timeout\<rparr>)
         cached = Some timeout
   \<and> (\<exists>st'. removeExisting (reliable\<lparr>unregisterPlatformAccessories := \<lambda>a. Some timeout\<rparr>)
               homeB cached \<lparr>accessories = [cached], trace = []\<rparr> = Inr st')"
proof -
  let ?e = "reliable\<lparr>getGroupedDevices := Inl timeout\<rparr>"
  let ?f = "reliable\<lparr>unregisterPlatformAccessories := \<lambda>a. Some timeout\<rparr>"
  let ?st = "\<lparr>accessories = [cached], trace = []\<rparr>"
  have h: "newHelkiClient ?e = None \<and> getGroupedDevices ?e = Inl timeout"
    by (simp add: reliable_def)
  have g: "unregisterPlatformAccessories ?f cached = Some timeout"
    by simp
  have l: "failureLine timeout = Log Error [S ''Failed to discover devices: timeout'']"
    by (simp add: timeout_def)
  note t = discoverDevices_never_rejects [of ?e "Some ''A''" ?st timeout ?st cached homeB]
  note u = discoverDevices_never_rejects [of ?f "Some ''A''" ?st timeout ?st cached homeB]
  from t h have "discoverDevices ?e (Some ''A'') ?st
      = (Resolved, ?st\<lparr>trace := trace ?st @ [NewHelkiClient, GetGroupedDevices, failureLine timeout]\<rparr>)"
    by (metis prod.collapse)
  moreover from u g have "\<exists>st'. removeExisting ?f homeB cached ?st = Inr st'"
    by blast
  moreover have "discoverBody ?e (Some ''A'') ?st
      = Inl (timeout, \<lparr>accessories = [cached], trace = [NewHelkiClient, GetGroupedDevices]\<rparr>)"
    by (simp add: discoverBody_def reliable_def emit_def)
  ultimately show ?thesis using h g by (simp add: l)
qed

section \<open>Two passes in succession\<close>

text \<open>
  When every node fetch succeeds, the three loops do what their unrolling does, and the
  nodes the unrolling reconciles are the visits of the topology.
\<close>

lemma visited_simps [simp]:
  "visited [] = []" "visited (x # xs) = visitOf x @ visited xs"
  "visited (xs @ ys) = visited xs @ visited ys"
  by (simp_all add: visited_def)

lemma visited_Visit: "visited (map (Visit grp device) ns) = map (\<lambda>node. (grp, device, node)) ns"
  by (induction ns) auto

lemma visited_deviceItems:
  "visited (deviceItems e grp device) = map (\<lambda>node. (grp, device, node)) (nodesOf e device)"
  by (simp add: deviceItems_def visited_Visit)

lemma visited_concat: "visited (concat xss) = concat (map visited xss)"
  by (induction xss) auto

lemma visited_passItems: "visited (passItems e groups) = visits e groups"
  by (simp add: passItems_def visits_def visited_concat comp_def visited_deviceItems)

lemma runItems_append:
  "runItems e home st (xs @ ys) = andThen (runItems e home st xs) (\<lambda>st'. runItems e home st' ys)"
  by (induction xs arbitrary: st) (auto simp add: andThen_def split: sum.splits)

lemma forNodes_flat:
  "forNodes e home grp device st ns = runItems e home st (map (Visit grp device) ns)"
  by (induction ns arbitrary: st) (auto simp add: andThen_def split: sum.splits)

lemma forDevice_flat:
  assumes "getNodes e (dev_id device) = Inr ns"
  shows "forDevice e home grp st device = runItems e home st (deviceItems e grp device)"
  using assms by (simp add: forDevice_def deviceItems_def nodesOf_def forNodes_flat Let_def)

lemma forDevices_flat:
  assumes "\<forall>device \<in> set ds. \<exists>ns. getNodes e (dev_id device) = Inr ns"
  shows "forDevices e home grp st ds = runItems e home st (concat (map (deviceItems e grp) ds))"
  using assms
proof (induction ds arbitrary: st)
  case Nil
  then show ?case by simp
next
  case (Cons d ds)
  from Cons.prems obtain ns where "getNodes e (dev_id d) = Inr ns" by auto
  then have "forDevice e home grp st d = runItems e home st (deviceItems e grp d)"
    by (rule forDevice_flat)
  with Cons show ?case
    by (simp add: runItems_append andThen_def split: sum.splits)
qed

lemma forGroups_flat:
  assumes "\<forall>grp \<in> set groups. \<forall>device \<in> set (devs grp). \<exists>ns. getNodes e (dev_id device) = Inr ns"
  shows "forGroups e home st groups = runItems e home st (passItems e groups)"
  using assms
proof (induction groups arbitrary: st)
  case Nil
  then show ?case by (simp add: passItems_def)
next
  case (Cons g gs)
  then have "forGroups e home st' gs = runItems e home st' (passItems e gs)" for st'
    by simp
  moreover have "forDevices e home g st (devs g)
      = runItems e home st (concat (map (deviceItems e g) (devs g)))"
    using Cons.prems by (intro forDevices_flat) simp
  ultimately show ?case
    by (simp add: passItems_def runItems_append andThen_def split: sum.splits)
qed

text \<open>
  The step at one node when no call to the host fails, by the branch it takes: the
  accessory exists and is out of the home, exists and is in it, or does not exist.
\<close>

lemma reconcileNode_remove:
  assumes "dependable e" "lookup (accessoryUUID (generate e) node device) (accessories st) = Some a"
    "mismatch home a"
  shows "\<exists>st'. reconcileNode e home grp device st node = Inr st'
           \<and> accessories st' = accessories st
           \<and> registrations (trace st') = registrations (trace st)
           \<and> renames (trace st') = renames (trace st)
           \<and> removals (trace st') = removals (trace st) @ [a]"
  using assms
  by (auto simp add: dependable_def lookup_def mismatch_def reconcileNode_def removeExisting_def
      Let_def split: option.splits)

lemma reconcileNode_restore:
  assumes "dependable e" "lookup (accessoryUUID (generate e) node device) (accessories st) = Some a"
    "\<not> mismatch home a"
  shows "\<exists>st'. reconcileNode e home grp device st node = Inr st'
           \<and> accessories st' = (if displayName a \<noteq> accessoryName node device
                then renameFirst (accessoryUUID (generate e) node device)
                       (accessoryName node device) (accessories st)
                else accessories st)
           \<and> registrations (trace st') = registrations (trace st)
           \<and> renames (trace st') = renames (trace st)
                @ (if displayName a \<noteq> accessoryName node device
                   then [a\<lparr>displayName := accessoryName node device\<rparr>] else [])
           \<and> removals (trace st') = removals (trace st)"
proof -
  from assms(2) have "UUID a = accessoryUUID (generate e) node device"
    by (auto simp add: lookup_def find_Some_iff)
  with assms show ?thesis
    by (auto simp add: dependable_def lookup_def mismatch_def reconcileNode_def
        restoreExisting_def bindExisting_def Let_def split: option.splits)
qed

lemma reconcileNode_create:
  assumes "dependable e" "lookup (accessoryUUID (generate e) node device) (accessories st) = None"
  shows "\<exists>st'. reconcileNode e home grp device st node = Inr st'
           \<and> accessories st' = accessories st
           \<and> registrations (trace st') = registrations (trace st)
                @ (if admits home grp then [newAccessory e (grp, device, node)] else [])
           \<and> renames (trace st') = renames (trace st)
           \<and> removals (trace st') = removals (trace st)"
  using assms
  by (auto simp add: dependable_def lookup_def admits_def reconcileNode_def createNew_def
      addAccessory_def Let_def split: option.splits)

text \<open>
  Renaming changes neither the UUIDs nor the recorded homes of the list, so a lookup in
  the list of a running pass finds an accessory where the first list has one, with the
  same home.
\<close>

lemma lookup_shape:
  assumes "map UUID xs = map UUID ys" "map ctx_home xs = map ctx_home ys"
  shows "(lookup u xs = None \<longleftrightarrow> lookup u ys = None)
         \<and> (\<forall>a b. lookup u xs = Some a \<longrightarrow> lookup u ys = Some b \<longrightarrow> ctx_home a = ctx_home b)"
  using assms
proof (induction xs arbitrary: ys)
  case Nil
  then show ?case by (simp add: lookup_def)
next
  case (Cons x xs)
  from Cons.prems(1) obtain y ys' where ys: "ys = y # ys'" by (cases ys) auto
  with Cons.prems have "UUID x = UUID y" "ctx_home x = ctx_home y"
    "map UUID xs = map UUID ys'" "map ctx_home xs = map ctx_home ys'"
    by simp_all
  with Cons.IH [of ys'] show ?case
    by (simp add: ys lookup_def)
qed

lemma lookup_UUID: "lookup u xs = Some a \<Longrightarrow> UUID a = u"
  by (auto simp add: lookup_def find_Some_iff)

lemma renameFirst_shape:
  "map UUID (renameFirst u n xs) = map UUID xs"
  "map ctx_home (renameFirst u n xs) = map ctx_home xs"
  by (induction xs) auto

lemma lookup_renameFirst_other:
  "u' \<noteq> u \<Longrightarrow> lookup u' (renameFirst u n xs) = lookup u' xs"
  by (induction xs) (auto simp add: lookup_def)

lemma lookup_renameFirst_same:
  "lookup u xs = Some a \<Longrightarrow> lookup u (renameFirst u n xs) = Some (a\<lparr>displayName := n\<rparr>)"
  unfolding lookup_def by (rule find_renameFirst)

lemma mismatch_cong: "ctx_home a = ctx_home b \<Longrightarrow> mismatch home a = mismatch home b"
  by (simp add: mismatch_def split: option.splits)

text \<open>
  The first pass keeps \<open>reconciled\<close> from visit to visit, as long as the UUID of each
  node is new among those visited.
\<close>

lemma reconciledI:
  assumes "map UUID (accessories st) = map UUID L"
    "map ctx_home (accessories st) = map ctx_home L"
    "registrations (trace st) = map (newAccessory e) (filter (fresh e home L) pre)"
    "map UUID (removals (trace st)) = map (uuidOf e) (filter (stale e home L) pre)"
    "\<And>v. v \<in> set pre \<Longrightarrow> kept e home L v \<Longrightarrow> named e (accessories st) v"
  shows "reconciled e home L pre st"
  using assms by (simp add: reconciled_def)

lemma reconciled_step:
  assumes dep: "dependable e"
    and inv: "reconciled e home L pre st"
    and new: "uuidOf e (grp, device, node) \<notin> set (map (uuidOf e) pre)"
  shows "\<exists>st'. reconcileNode e home grp device st node = Inr st'
           \<and> reconciled e home L (pre @ [(grp, device, node)]) st'"
proof -
  let ?v = "(grp, device, node)"
  let ?u = "accessoryUUID (generate e) node device"
  let ?n = "accessoryName node device"
  from inv have shape: "map UUID (accessories st) = map UUID L"
    "map ctx_home (accessories st) = map ctx_home L"
    and regs: "registrations (trace st) = map (newAccessory e) (filter (fresh e home L) pre)"
    and rems: "map UUID (removals (trace st)) = map (uuidOf e) (filter (stale e home L) pre)"
    and nms: "\<And>v. v \<in> set pre \<Longrightarrow> kept e home L v \<Longrightarrow> named e (accessories st) v"
    by (simp_all add: reconciled_def)
  note sh = lookup_shape [OF shape, of ?u]
  from new have other: "\<And>v. v \<in> set pre \<Longrightarrow> uuidOf e v \<noteq> ?u" by force
  show ?thesis
  proof (cases "lookup ?u (accessories st)")
    case None
    with sh have l0: "lookup ?u L = None" by simp
    from reconcileNode_create [OF dep None, of home grp]
    obtain st' where st': "reconcileNode e home grp device st node = Inr st'"
      and acc: "accessories st' = accessories st"
      and r1: "registrations (trace st') = registrations (trace st)
         @ (if admits home grp then [newAccessory e ?v] else [])"
      and r2: "removals (trace st') = removals (trace st)"
      by blast
    have f: "fresh e home L ?v = admits home grp" "\<not> stale e home L ?v" "\<not> kept e home L ?v"
      using l0 by (simp_all add: fresh_def stale_def kept_def)
    have "reconciled e home L (pre @ [?v]) st'"
    proof (rule reconciledI)
      show "map UUID (accessories st') = map UUID L" by (simp add: acc shape)
      show "map ctx_home (accessories st') = map ctx_home L" by (simp add: acc shape)
      show "registrations (trace st') = map (newAccessory e) (filter (fresh e home L) (pre @ [?v]))"
        by (simp add: r1 regs f del: newAccessory.simps)
      show "map UUID (removals (trace st')) = map (uuidOf e) (filter (stale e home L) (pre @ [?v]))"
        by (simp add: r2 rems f del: uuidOf.simps)
      show "named e (accessories st') v" if "v \<in> set (pre @ [?v])" "kept e home L v" for v
        using that f nms [of v] by (auto simp add: acc)
    qed
    with st' show ?thesis by blast
  next
    case (Some a)
    with sh have "lookup ?u L \<noteq> None" by simp
    then obtain a0 where l0: "lookup ?u L = Some a0" by blast
    from sh Some l0 have h: "ctx_home a = ctx_home a0" by blast
    have mm: "mismatch home a = mismatch home a0" using h by (rule mismatch_cong)
    have ua: "UUID a = ?u" using Some by (rule lookup_UUID)
    show ?thesis
    proof (cases "mismatch home a")
      case True
      from reconcileNode_remove [OF dep Some True, of grp]
      obtain st' where st': "reconcileNode e home grp device st node = Inr st'"
        and acc: "accessories st' = accessories st"
        and r1: "registrations (trace st') = registrations (trace st)"
        and r2: "removals (trace st') = removals (trace st) @ [a]"
        by blast
      have f: "\<not> fresh e home L ?v" "stale e home L ?v" "\<not> kept e home L ?v"
        using l0 True mm by (simp_all add: fresh_def stale_def kept_def)
      have "reconciled e home L (pre @ [?v]) st'"
      proof (rule reconciledI)
        show "map UUID (accessories st') = map UUID L" by (simp add: acc shape)
        show "map ctx_home (accessories st') = map ctx_home L" by (simp add: acc shape)
        show "registrations (trace st') = map (newAccessory e) (filter (fresh e home L) (pre @ [?v]))"
          by (simp add: r1 regs f del: newAccessory.simps)
        show "map UUID (removals (trace st')) = map (uuidOf e) (filter (stale e home L) (pre @ [?v]))"
          by (simp add: r2 rems f ua)
        show "named e (accessories st') v" if "v \<in> set (pre @ [?v])" "kept e home L v" for v
          using that f nms [of v] by (auto simp add: acc)
      qed
      with st' show ?thesis by blast
    next
      case False
      from reconcileNode_restore [OF dep Some False, of grp]
      obtain st' where st': "reconcileNode e home grp device st node = Inr st'"
        and acc: "accessories st' = (if displayName a \<noteq> ?n then renameFirst ?u ?n (accessories st)
                            else accessories st)"
        and r1: "registrations (trace st') = registrations (trace st)"
        and r2: "removals (trace st') = removals (trace st)"
        by blast
      have f: "\<not> fresh e home L ?v" "\<not> stale e home L ?v"
        using l0 False mm by (simp_all add: fresh_def stale_def)
      have this_one: "named e (accessories st') ?v"
        using Some by (simp add: named_def acc lookup_renameFirst_same)
      have "reconciled e home L (pre @ [?v]) st'"
      proof (rule reconciledI)
        show "map UUID (accessories st') = map UUID L" by (simp add: acc shape renameFirst_shape)
        show "map ctx_home (accessories st') = map ctx_home L"
          by (simp add: acc shape renameFirst_shape)
        show "registrations (trace st') = map (newAccessory e) (filter (fresh e home L) (pre @ [?v]))"
          by (simp add: r1 regs f del: newAccessory.simps)
        show "map UUID (removals (trace st')) = map (uuidOf e) (filter (stale e home L) (pre @ [?v]))"
          by (simp add: r2 rems f del: uuidOf.simps)
        show "named e (accessories st') v" if v: "v \<in> set (pre @ [?v])" "kept e home L v" for v
        proof (cases "v = ?v")
          case True
          with this_one show ?thesis by simp
        next
          case False
          with v have "v \<in> set pre" by simp
          with v(2) have "named e (accessories st) v" "uuidOf e v \<noteq> ?u"
            using nms other by blast+
          then show ?thesis
            by (simp add: named_def acc lookup_renameFirst_other)
        qed
      qed
      with st' show ?thesis by blast
    qed
  qed
qed

lemma reconciled_emit:
  assumes "reconciled e home L pre st" "registered ev = None" "removed ev = None"
  shows "reconciled e home L pre (emit ev st)"
  using assms by (simp add: reconciled_def)

lemma reconciled_items:
  assumes dep: "dependable e"
    and inv: "reconciled e home L pre st"
    and dis: "distinct (map (uuidOf e) (pre @ visited xs))"
  shows "\<exists>st'. runItems e home st xs = Inr st' \<and> reconciled e home L (pre @ visited xs) st'"
  using inv dis
proof (induction xs arbitrary: pre st)
  case Nil
  then show ?case by simp
next
  case (Cons x xs)
  show ?case
  proof (cases x)
    case (Fetch d)
    have "reconciled e home L pre (emit (GetNodes (dev_id d)) st)"
      using Cons.prems(1) by (rule reconciled_emit) simp_all
    from Cons.IH [OF this] Cons.prems(2) Fetch show ?thesis by simp
  next
    case (Skip d)
    have "reconciled e home L pre
            (emit (Log Warn [S (''No nodes found for device: '' @ dev_name d)]) st)"
      using Cons.prems(1) by (rule reconciled_emit) simp_all
    from Cons.IH [OF this] Cons.prems(2) Skip show ?thesis by simp
  next
    case (Visit g d n)
    from Cons.prems(2) Visit have new: "uuidOf e (g, d, n) \<notin> set (map (uuidOf e) pre)"
      by auto
    from reconciled_step [OF dep Cons.prems(1) new]
    obtain st1 where st1: "reconcileNode e home g d st n = Inr st1"
      "reconciled e home L (pre @ [(g, d, n)]) st1"
      by blast
    from Cons.prems(2) Visit have "distinct (map (uuidOf e) ((pre @ [(g, d, n)]) @ visited xs))"
      by simp
    from Cons.IH [OF st1(2) this] st1(1) Visit show ?thesis by simp
  qed
qed








lemma UUID_newAccessory: "UUID (newAccessory e v) = uuidOf e v"
  by (cases v) simp


lemma mem_filtered:
  assumes "distinct (map f V)" "v \<in> set V"
  shows "f v \<in> set (map f (filter P V)) \<longleftrightarrow> P v"
  using assms by (auto simp add: distinct_map inj_on_def)




lemma first_pass:
  assumes client: "newHelkiClient e = None" "getGroupedDevices e = Inr groups"
    and nodes: "\<forall>grp \<in> set groups. \<forall>device \<in> set (devs grp). \<exists>ns. getNodes e (dev_id device) = Inr ns"
    and dep: "dependable e"
    and dV: "distinct (map (uuidOf e) (visits e groups))"
  shows "reconciled e (findHome config_home groups) (accessories st) (visits e groups)
           (snd (discoverDevices e config_home (st\<lparr>trace := []\<rparr>)))"
proof -
  let ?home = "findHome config_home groups"
  let ?st2 = "emit GetGroupedDevices (emit NewHelkiClient (st\<lparr>trace := []\<rparr>))"
  have "reconciled e ?home (accessories st) [] ?st2"
    by (simp add: reconciled_def)
  from reconciled_items [OF dep this, of "passItems e groups"] dV
  obtain st' where "runItems e ?home ?st2 (passItems e groups) = Inr st'"
    "reconciled e ?home (accessories st) (visits e groups) st'"
    by (auto simp add: visited_passItems)
  then show ?thesis
    using client forGroups_flat [OF nodes, of ?home ?st2]
    by (simp add: discoverDevices_def discoverBody_def Let_def)
qed





section \<open>Renaming over a pass\<close>

lemma renamed_after_pass:
  assumes client: "newHelkiClient e = None" "getGroupedDevices e = Inr groups"
    and nodes: "\<forall>grp \<in> set groups. \<forall>device \<in> set (devs grp). \<exists>ns. getNodes e (dev_id device) = Inr ns"
    and dep: "dependable e"
    and dV: "distinct (map (uuidOf e) (visits e groups))"
    and v: "v \<in> set (visits e groups)"
    and ex: "lookup (uuidOf e v) (accessories st) = Some existing"
    and ok: "\<not> mismatch (findHome config_home groups) existing"
  shows "(\<exists>a. lookup (uuidOf e v) (accessories (snd (discoverDevices e config_home (st\<lparr>trace := []\<rparr>))))
               = Some a \<and> displayName a = nameOf v)
         \<and> uuidOf e v \<notin> set (map UUID (registrations
               (trace (snd (discoverDevices e config_home (st\<lparr>trace := []\<rparr>))))))"
proof -
  let ?home = "findHome config_home groups"
  let ?p = "snd (discoverDevices e config_home (st\<lparr>trace := []\<rparr>))"
  have inv: "reconciled e ?home (accessories st) (visits e groups) ?p"
    using client nodes dep dV by (rule first_pass)
  from ex ok have k: "kept e ?home (accessories st) v" and nf: "\<not> fresh e ?home (accessories st) v"
    by (simp_all add: kept_def fresh_def)
  from inv v k have "named e (accessories ?p) v"
    by (simp add: reconciled_def)
  then have 1: "\<exists>a. lookup (uuidOf e v) (accessories ?p) = Some a \<and> displayName a = nameOf v"
    by (auto simp add: named_def split: option.splits)
  from inv have "map UUID (registrations (trace ?p))
      = map (uuidOf e) (filter (fresh e ?home (accessories st)) (visits e groups))"
    by (simp add: reconciled_def comp_def UUID_newAccessory)
  with mem_filtered [OF dV v, of "fresh e ?home (accessories st)"] nf
  have 2: "uuidOf e v \<notin> set (map UUID (registrations (trace ?p)))"
    by simp
  from 1 2 show ?thesis by blast
qed

text \<open>
  C8. The display name of a node is \<open>node.name || device.name\<close>. When the accessory of
  a node exists, passes the home filter and has another display name, the step writes
  the new name to that accessory in the list, pushes the renamed accessory to the host
  with \<open>updatePlatformAccessories\<close>, and constructs, registers and removes nothing: the
  list keeps its length. Over a whole pass in which no call fails and the nodes have
  distinct UUIDs, the accessory of such a node ends with the node's name, and nothing is
  registered under its UUID.
\<close>

theorem rename_existing:
  "accessoryName node device = js_or (node_name node) (dev_name device)
   \<and> (lookup (accessoryUUID (generate e) node device) (accessories st) = Some existing
      \<and> \<not> mismatch home existing
      \<and> displayName existing \<noteq> accessoryName node device
    \<longrightarrow> accessories (stateOf (reconcileNode e home grp device st node))
          = renameFirst (UUID existing) (accessoryName node device) (accessories st)
        \<and> lookup (accessoryUUID (generate e) node device)
            (accessories (stateOf (reconcileNode e home grp device st node)))
          = Some (existing\<lparr>displayName := accessoryName node device\<rparr>)
        \<and> length (accessories (stateOf (reconcileNode e home grp device st node)))
          = length (accessories st)
        \<and> renames (trace (stateOf (reconcileNode e home grp device st node)))
          = renames (trace st) @ [existing\<lparr>displayName := accessoryName node device\<rparr>]
        \<and> registrations (trace (stateOf (reconcileNode e home grp device st node)))
          = registrations (trace st)
        \<and> removals (trace (stateOf (reconcileNode e home grp device st node)))
          = removals (trace st)
        \<and> filter constructed (trace (stateOf (reconcileNode e home grp device st node)))
          = filter constructed (trace st))
   \<and> (newHelkiClient e = None \<and> getGroupedDevices e = Inr groups
      \<and> (\<forall>grp \<in> set groups. \<forall>device \<in> set (devs grp). \<exists>ns. getNodes e (dev_id device) = Inr ns)
      \<and> dependable e
      \<and> distinct (map (uuidOf e) (visits e groups))
      \<and> v \<in> set (visits e groups)
      \<and> lookup (uuidOf e v) (accessories st) = Some existing
      \<and> \<not> mismatch (findHome config_home groups) existing
    \<longrightarrow> (\<exists>a. lookup (uuidOf e v) (accessories (snd (discoverDevices e config_home (st\<lparr>trace := []\<rparr>))))
               = Some a \<and> displayName a = nameOf v)
        \<and> uuidOf e v \<notin> set (map UUID (registrations
               (trace (snd (discoverDevices e config_home (st\<lparr>trace := []\<rparr>)))))))"
proof (intro conjI impI)
  show "accessoryName node device = js_or (node_name node) (dev_name device)"
    by (simp add: accessoryName_def)
next
  assume a: "lookup (accessoryUUID (generate e) node device) (accessories st) = Some existing
      \<and> \<not> mismatch home existing
      \<and> displayName existing \<noteq> accessoryName node device"
  then have u: "UUID existing = accessoryUUID (generate e) node device"
    using lookup_UUID by blast
  let ?r = "reconcileNode e home grp device st node"
  have acc: "accessories (stateOf ?r)
      = renameFirst (UUID existing) (accessoryName node device) (accessories st)"
    and tr: "\<exists>evs. trace (stateOf ?r) = trace st @ evs
          \<and> renames evs = [existing\<lparr>displayName := accessoryName node device\<rparr>]
          \<and> registrations evs = [] \<and> removals evs = [] \<and> filter constructed evs = []"
    using a by (auto simp add: lookup_def mismatch_def reconcileNode_def restoreExisting_def
        bindExisting_def Let_def call_def split: option.splits)
  show "accessories (stateOf ?r)
      = renameFirst (UUID existing) (accessoryName node device) (accessories st)"
    by (rule acc)
  show "lookup (accessoryUUID (generate e) node device) (accessories (stateOf ?r))
          = Some (existing\<lparr>displayName := accessoryName node device\<rparr>)"
    using a lookup_renameFirst_same [of "UUID existing" "accessories st" existing]
    by (simp add: acc u)
  show "length (accessories (stateOf ?r)) = length (accessories st)"
    by (simp add: acc length_renameFirst)
  show "renames (trace (stateOf ?r))
          = renames (trace st) @ [existing\<lparr>displayName := accessoryName node device\<rparr>]"
    using tr by auto
  show "registrations (trace (stateOf ?r)) = registrations (trace st)"
    using tr by auto
  show "removals (trace (stateOf ?r)) = removals (trace st)"
    using tr by auto
  show "filter constructed (trace (stateOf ?r)) = filter constructed (trace st)"
    using tr by auto
next
  assume b: "newHelkiClient e = None \<and> getGroupedDevices e = Inr groups
      \<and> (\<forall>grp \<in> set groups. \<forall>device \<in> set (devs grp). \<exists>ns. getNodes e (dev_id device) = Inr ns)
      \<and> dependable e
      \<and> distinct (map (uuidOf e) (visits e groups))
      \<and> v \<in> set (visits e groups)
      \<and> lookup (uuidOf e v) (accessories st) = Some existing
      \<and> \<not> mismatch (findHome config_home groups) existing"
  then have r: "(\<exists>a. lookup (uuidOf e v) (accessories (snd (discoverDevices e config_home (st\<lparr>trace := []\<rparr>))))
               = Some a \<and> displayName a = nameOf v)
         \<and> uuidOf e v \<notin> set (map UUID (registrations
               (trace (snd (discoverDevices e config_home (st\<lparr>trace := []\<rparr>))))))"
    by (intro renamed_after_pass) blast+
  from r show "\<exists>a. lookup (uuidOf e v) (accessories (snd (discoverDevices e config_home (st\<lparr>trace := []\<rparr>))))
               = Some a \<and> displayName a = nameOf v"
    by blast
  from r show "uuidOf e v \<notin> set (map UUID (registrations
               (trace (snd (discoverDevices e config_home (st\<lparr>trace := []\<rparr>))))))"
    by blast
qed

theorem rename_existing_witness:
  "(lookup (accessoryUUID (generate household) hall heater) [cached, cachedStove] = Some cached
      \<and> \<not> mismatch (Some (house ! 0)) cached
      \<and> displayName cached \<noteq> accessoryName hall heater)
   \<and> accessories (stateOf (reconcileNode household (Some (house ! 0)) (house ! 0) heater
         \<lparr>accessories = [cached, cachedStove], trace = []\<rparr> hall))
       = [cached\<lparr>displayName := ''Hall''\<rparr>, cachedStove]
   \<and> renames (trace (stateOf (reconcileNode household (Some (house ! 0)) (house ! 0) heater
         \<lparr>accessories = [cached, cachedStove], trace = []\<rparr> hall)))
       = [cached\<lparr>displayName := ''Hall''\<rparr>]
   \<and> registrations (trace (stateOf (reconcileNode household (Some (house ! 0)) (house ! 0) heater
         \<lparr>accessories = [cached, cachedStove], trace = []\<rparr> hall)))
       = []
   \<and> distinct (map (uuidOf household) (visits household house))
   \<and> (\<exists>a. lookup ''n1'' (accessories (snd (discoverDevices household (Some ''A'')
                \<lparr>accessories = [cached, cachedStove], trace = []\<rparr>))) = Some a
          \<and> displayName a = ''Hall'')
   \<and> ''n1'' \<notin> set (map UUID (registrations (trace (snd (discoverDevices household (Some ''A'')
                \<lparr>accessories = [cached, cachedStove], trace = []\<rparr>)))))"
proof -
  let ?st = "\<lparr>accessories = [cached, cachedStove], trace = []\<rparr>"
  let ?v = "(house ! 0, heater, hall)"
  have g: "generate household = id" "getGroupedDevices household = Inr house"
    "newHelkiClient household = None"
    by (simp_all add: household_def reliable_def)
  have d: "dependable household"
    by (simp add: dependable_def household_def reliable_def)
  have n: "accessoryUUID (generate household) hall heater = ''n1''"
    "accessoryName hall heater = ''Hall''" "UUID cached = ''n1''"
    by (simp_all add: g accessoryUUID_def accessoryName_def js_or_def hall_def cached_def)
  have v: "visits household house = [?v, (house ! 1, stove, bare)]"
    by (simp add: visits_def nodesOf_def household_def house_def heater_def towelRail_def
        stove_def)
  have u: "map (uuidOf household) (visits household house) = [''n1'', ''d3'']"
    unfolding v by (simp add: g accessoryUUID_def js_or_def hall_def bare_def stove_def)
  have f: "findHome (Some ''A'') house = Some (house ! 0)"
    by (simp add: findHome_def house_def)
  have h1: "lookup ''n1'' (accessories ?st) = Some cached
      \<and> \<not> mismatch (Some (house ! 0)) cached
      \<and> displayName cached \<noteq> ''Hall''"
    by (simp add: lookup_def mismatch_def cached_def house_def)
  have h2: "\<forall>grp \<in> set house. \<forall>device \<in> set (devs grp).
              \<exists>ns. getNodes household (dev_id device) = Inr ns"
    by (simp add: household_def house_def)
  have h3: "distinct (map (uuidOf household) (visits household house))"
    by (simp add: u)
  have h4: "?v \<in> set (visits household house)" "uuidOf household ?v = ''n1''" "nameOf ?v = ''Hall''"
    by (simp_all add: v n)
  note t = rename_existing [of hall heater household ?st cached "Some (house ! 0)" "house ! 0"
      house ?v "Some ''A''", THEN conjunct2]
  from t h1 have c1: "accessories (stateOf (reconcileNode household (Some (house ! 0)) (house ! 0)
         heater ?st hall)) = [cached\<lparr>displayName := ''Hall''\<rparr>, cachedStove]"
    "renames (trace (stateOf (reconcileNode household (Some (house ! 0)) (house ! 0) heater
         ?st hall))) = [cached\<lparr>displayName := ''Hall''\<rparr>]"
    "registrations (trace (stateOf (reconcileNode household (Some (house ! 0)) (house ! 0) heater
         ?st hall))) = []"
    by (simp_all add: n)
  from t h1 h2 h3 h4 g d f
  have c2: "(\<exists>a. lookup ''n1'' (accessories (snd (discoverDevices household (Some ''A'') ?st)))
                = Some a \<and> displayName a = ''Hall'')
      \<and> ''n1'' \<notin> set (map UUID (registrations (trace (snd (discoverDevices household
                (Some ''A'') ?st)))))"
    by (simp add: n)
  from h1 h3 c1 c2 show ?thesis
    by (simp add: n)
qed

section \<open>The home filter over a pass\<close>

text \<open>
  A property of the platform that every step keeps, and that inert events keep, holds
  after the pass, however the pass ends.
\<close>

lemma stateOf_andThen:
  "stateOf (andThen r f) = (case r of Inl x \<Rightarrow> snd x | Inr st \<Rightarrow> stateOf (f st))"
  by (cases r) (auto simp add: andThen_def)

lemma stateOf_call [simp]: "stateOf (call r st) = st"
  by (cases r) simp_all

text \<open>
  What the step at one node can do, whatever fails: it leaves the list alone or renames
  the accessory of the node, and every accessory it binds, registers, renames or removes
  has the UUID of the node.
\<close>

lemma reconcileNode_effect:
  "\<exists>evs. trace (stateOf (reconcileNode e home grp device st node)) = trace st @ evs
     \<and> (accessories (stateOf (reconcileNode e home grp device st node)) = accessories st
        \<or> accessories (stateOf (reconcileNode e home grp device st node))
            = renameFirst (accessoryUUID (generate e) node device) (accessoryName node device)
                (accessories st))
     \<and> (\<forall>b \<in> set (bindings evs @ registrations evs @ renames evs @ removals evs).
           UUID b = accessoryUUID (generate e) node device)"
proof (cases "lookup (accessoryUUID (generate e) node device) (accessories st)")
  case None
  then show ?thesis
    by (auto simp add: lookup_def reconcileNode_def createNew_def addAccessory_def Let_def call_def
        stateOf_andThen split: option.splits sum.splits)
next
  case (Some a)
  then have "UUID a = accessoryUUID (generate e) node device" by (rule lookup_UUID)
  with Some show ?thesis
    by (auto simp add: lookup_def reconcileNode_def removeExisting_def restoreExisting_def
        bindExisting_def Let_def call_def stateOf_andThen split: option.splits sum.splits)
qed


lemma forNodes_preserves:
  assumes step: "\<And>node st. node \<in> set nodes \<Longrightarrow> P st
                  \<Longrightarrow> P (stateOf (reconcileNode e home grp device st node))"
    and st: "P st"
  shows "P (stateOf (forNodes e home grp device st nodes))"
  using assms
proof (induction nodes arbitrary: st)
  case Nil
  then show ?case by simp
next
  case (Cons n ns)
  have n: "P (stateOf (reconcileNode e home grp device st n))"
    using Cons.prems by simp
  show ?case
  proof (cases "reconcileNode e home grp device st n")
    case (Inl x)
    with n show ?thesis by (cases x) simp
  next
    case (Inr st1)
    with n have "P st1" by simp
    then have "P (stateOf (forNodes e home grp device st1 ns))"
      using Cons.prems(1) by (intro Cons.IH) simp_all
    with Inr show ?thesis by simp
  qed
qed

lemma forDevice_preserves:
  assumes step: "\<And>nodes node st. getNodes e (dev_id device) = Inr nodes \<Longrightarrow> node \<in> set nodes
                  \<Longrightarrow> P st \<Longrightarrow> P (stateOf (reconcileNode e home grp device st node))"
    and silent: "\<And>ev st. inert ev \<Longrightarrow> P st \<Longrightarrow> P (emit ev st)"
    and st: "P st"
  shows "P (stateOf (forDevice e home grp st device))"
proof -
  have f: "P (emit (GetNodes (dev_id device)) st)"
    using st by (rule silent [rotated]) (simp add: inert_def)
  show ?thesis
  proof (cases "getNodes e (dev_id device)")
    case (Inl error)
    with f show ?thesis by (simp add: forDevice_def)
  next
    case (Inr nodes)
    show ?thesis
    proof (cases "nodes = []")
      case True
      have "P (emit (Log Warn [S (''No nodes found for device: '' @ dev_name device)])
                (emit (GetNodes (dev_id device)) st))"
        using f by (rule silent [rotated]) (simp add: inert_def)
      with Inr True show ?thesis by (simp add: forDevice_def)
    next
      case False
      have "P (stateOf (forNodes e home grp device (emit (GetNodes (dev_id device)) st) nodes))"
        using step [OF Inr] f by (rule forNodes_preserves)
      with Inr False show ?thesis by (simp add: forDevice_def)
    qed
  qed
qed

lemma forDevices_preserves:
  assumes step: "\<And>device nodes node st. device \<in> set devices
                  \<Longrightarrow> getNodes e (dev_id device) = Inr nodes \<Longrightarrow> node \<in> set nodes
                  \<Longrightarrow> P st \<Longrightarrow> P (stateOf (reconcileNode e home grp device st node))"
    and silent: "\<And>ev st. inert ev \<Longrightarrow> P st \<Longrightarrow> P (emit ev st)"
    and st: "P st"
  shows "P (stateOf (forDevices e home grp st devices))"
  using step st
proof (induction devices arbitrary: st)
  case Nil
  then show ?case by simp
next
  case (Cons d ds)
  have d: "P (stateOf (forDevice e home grp st d))"
  proof (rule forDevice_preserves)
    show "P (stateOf (reconcileNode e home grp d st' node))"
      if "getNodes e (dev_id d) = Inr nodes" "node \<in> set nodes" "P st'" for nodes node st'
      using that Cons.prems(1) [of d nodes node st'] by simp
    show "P (emit ev st')" if "inert ev" "P st'" for ev st'
      using that by (rule silent)
    show "P st" by (rule Cons.prems(2))
  qed
  show ?case
  proof (cases "forDevice e home grp st d")
    case (Inl x)
    with d show ?thesis by (cases x) simp
  next
    case (Inr st1)
    with d have "P st1" by simp
    then have "P (stateOf (forDevices e home grp st1 ds))"
      using Cons.prems(1) by (intro Cons.IH) simp_all
    with Inr show ?thesis by simp
  qed
qed

lemma forGroups_preserves:
  assumes step: "\<And>grp device nodes node st. grp \<in> set groups \<Longrightarrow> device \<in> set (devs grp)
                  \<Longrightarrow> getNodes e (dev_id device) = Inr nodes \<Longrightarrow> node \<in> set nodes
                  \<Longrightarrow> P st \<Longrightarrow> P (stateOf (reconcileNode e home grp device st node))"
    and silent: "\<And>ev st. inert ev \<Longrightarrow> P st \<Longrightarrow> P (emit ev st)"
    and st: "P st"
  shows "P (stateOf (forGroups e home st groups))"
  using step st
proof (induction groups arbitrary: st)
  case Nil
  then show ?case by simp
next
  case (Cons g gs)
  have g: "P (stateOf (forDevices e home g st (devs g)))"
  proof (rule forDevices_preserves)
    show "P (stateOf (reconcileNode e home g device st' node))"
      if "device \<in> set (devs g)" "getNodes e (dev_id device) = Inr nodes" "node \<in> set nodes"
        "P st'" for device nodes node st'
      using that Cons.prems(1) [of g device nodes node st'] by simp
    show "P (emit ev st')" if "inert ev" "P st'" for ev st'
      using that by (rule silent)
    show "P st" by (rule Cons.prems(2))
  qed
  show ?case
  proof (cases "forDevices e home g st (devs g)")
    case (Inl x)
    with g show ?thesis by (cases x) simp
  next
    case (Inr st1)
    with g have "P st1" by simp
    then have "P (stateOf (forGroups e home st1 gs))"
      using Cons.prems(1) by (intro Cons.IH) simp_all
    with Inr show ?thesis by simp
  qed
qed

lemma visit_mem:
  assumes "grp \<in> set groups" "device \<in> set (devs grp)" "getNodes e (dev_id device) = Inr nodes"
    "node \<in> set nodes"
  shows "(grp, device, node) \<in> set (visits e groups)"
proof -
  have "node \<in> set (nodesOf e device)"
    using assms(3,4) by (simp add: nodesOf_def)
  then have "(grp, device, node)
      \<in> set (concat (map (\<lambda>device. map (\<lambda>node. (grp, device, node)) (nodesOf e device))
                         (devs grp)))"
    using assms(2) by (auto intro!: bexI [of _ device])
  then show ?thesis
    using assms(1) unfolding visits_def by (auto intro!: bexI [of _ grp])
qed

lemma inert_failureLine: "inert (failureLine error)"
  by (cases error) (simp_all add: inert_def)

lemma discoverDevices_preserves:
  assumes step: "\<And>groups grp device node st. getGroupedDevices e = Inr groups
                  \<Longrightarrow> (grp, device, node) \<in> set (visits e groups) \<Longrightarrow> P st
                  \<Longrightarrow> P (stateOf (reconcileNode e (findHome config_home groups) grp device st node))"
    and silent: "\<And>ev st. inert ev \<Longrightarrow> P st \<Longrightarrow> P (emit ev st)"
    and st: "P st"
  shows "P (snd (discoverDevices e config_home st))"
proof -
  have 1: "P (emit NewHelkiClient st)"
    using st by (rule silent [rotated]) (simp add: inert_def)
  then have 2: "P (emit GetGroupedDevices (emit NewHelkiClient st))"
    by (rule silent [rotated]) (simp add: inert_def)
  have body: "P (stateOf (discoverBody e config_home st))"
  proof (cases "newHelkiClient e")
    case (Some error)
    with 1 show ?thesis by (simp add: discoverBody_def)
  next
    case None
    show ?thesis
    proof (cases "getGroupedDevices e")
      case (Inl error)
      with None 2 show ?thesis by (simp add: discoverBody_def)
    next
      case (Inr groups)
      have "P (stateOf (forGroups e (findHome config_home groups)
                 (emit GetGroupedDevices (emit NewHelkiClient st)) groups))"
      proof (rule forGroups_preserves)
        show "P (stateOf (reconcileNode e (findHome config_home groups) grp device st' node))"
          if "grp \<in> set groups" "device \<in> set (devs grp)"
            "getNodes e (dev_id device) = Inr nodes" "node \<in> set nodes" "P st'"
          for grp device nodes node st'
          using that step [OF Inr, of grp device node st'] by (simp add: visit_mem)
        show "P (emit ev st')" if "inert ev" "P st'" for ev st'
          using that by (rule silent)
        show "P (emit GetGroupedDevices (emit NewHelkiClient st))" by (rule 2)
      qed
      with None Inr show ?thesis by (simp add: discoverBody_def)
    qed
  qed
  show ?thesis
  proof (cases "discoverBody e config_home st")
    case (Inl x)
    obtain error st' where x: "x = (error, st')" by (cases x)
    with Inl body have "P st'" by simp
    then have "P (emit (failureLine error) st')"
      by (rule silent [OF inert_failureLine])
    with Inl x show ?thesis by (simp add: discoverDevices_def)
  next
    case (Inr st')
    with body show ?thesis by (simp add: discoverDevices_def)
  qed
qed


lemma reconcileNode_mismatch:
  assumes "lookup (accessoryUUID (generate e) node device) (accessories st) = Some existing"
    "ctx_home existing \<noteq> group_name h"
  shows "\<exists>st'. reconcileNode e (Some h) grp device st node = Inr st'
          \<and> accessories st' = accessories st
          \<and> removals (trace st') = removals (trace st) @ [existing]
          \<and> bindings (trace st') = bindings (trace st)
          \<and> renames (trace st') = renames (trace st)
          \<and> registrations (trace st') = registrations (trace st)"
  using assms
  by (auto simp add: lookup_def reconcileNode_def removeExisting_def Let_def split: option.splits)

lemma reconcileNode_discard:
  assumes "lookup (accessoryUUID (generate e) node device) (accessories st) = None"
    "group_name h \<noteq> group_name grp"
  shows "accessories (stateOf (reconcileNode e (Some h) grp device st node)) = accessories st
        \<and> trace (stateOf (reconcileNode e (Some h) grp device st node))
            = trace st @ [NewPlatformAccessory (accessoryName node device)
                            (accessoryUUID (generate e) node device)]"
  using assms
  by (auto simp add: lookup_def reconcileNode_def createNew_def Let_def call_def
      split: option.splits)

lemma never_bound:
  assumes groups: "getGroupedDevices e = Inr groups"
    and home: "findHome config_home groups = Some h"
    and ex: "lookup u (accessories st) = Some existing"
    and mm: "ctx_home existing \<noteq> group_name h"
  shows "\<forall>b \<in> set (bindings (trace (snd (discoverDevices e config_home (st\<lparr>trace := []\<rparr>))))).
           UUID b \<noteq> u"
proof -
  let ?P = "\<lambda>s. (\<exists>a. lookup u (accessories s) = Some a \<and> ctx_home a = ctx_home existing)
                \<and> (\<forall>b \<in> set (bindings (trace s)). UUID b \<noteq> u)"
  have "?P (snd (discoverDevices e config_home (st\<lparr>trace := []\<rparr>)))"
  proof (rule discoverDevices_preserves [where P = ?P])
    show "?P (st\<lparr>trace := []\<rparr>)" using ex by simp
    show "?P (emit ev s)" if "inert ev" "?P s" for ev s
      using that by (simp add: inert_def)
    show "?P (stateOf (reconcileNode e (findHome config_home groups') grp device s node))"
      if g: "getGroupedDevices e = Inr groups'" and p: "?P s" for groups' grp device node s
    proof -
      let ?w = "accessoryUUID (generate e) node device"
      from g groups home have h: "findHome config_home groups' = Some h" by simp
      from p obtain a where a: "lookup u (accessories s) = Some a" "ctx_home a = ctx_home existing"
        by blast
      show ?thesis
      proof (cases "?w = u")
        case True
        with a mm reconcileNode_mismatch [of e node device s a h grp] p show ?thesis
          by (auto simp add: h)
      next
        case False
        from reconcileNode_effect [of e "Some h" grp device s node]
        obtain evs where evs:
          "trace (stateOf (reconcileNode e (Some h) grp device s node)) = trace s @ evs"
          "accessories (stateOf (reconcileNode e (Some h) grp device s node)) = accessories s
           \<or> accessories (stateOf (reconcileNode e (Some h) grp device s node))
               = renameFirst ?w (accessoryName node device) (accessories s)"
          "\<forall>b \<in> set (bindings evs @ registrations evs @ renames evs @ removals evs). UUID b = ?w"
          by blast
        from evs(2) False have "lookup u (accessories (stateOf (reconcileNode e (Some h) grp device s node)))
            = lookup u (accessories s)"
          by (auto simp add: lookup_renameFirst_other)
        with a evs(1,3) p False show ?thesis
          by (auto simp add: h)
      qed
    qed
  qed
  then show ?thesis by blast
qed

lemma never_created:
  assumes groups: "getGroupedDevices e = Inr groups"
    and home: "findHome config_home groups = Some h"
    and ex: "lookup u (accessories st) = None"
    and out: "\<forall>v \<in> set (visits e groups). uuidOf e v = u \<longrightarrow> group_name h \<noteq> group_name (fst v)"
  shows "\<forall>b \<in> set (bindings (trace (snd (discoverDevices e config_home (st\<lparr>trace := []\<rparr>))))
                  @ registrations (trace (snd (discoverDevices e config_home (st\<lparr>trace := []\<rparr>))))).
           UUID b \<noteq> u"
proof -
  let ?P = "\<lambda>s. lookup u (accessories s) = None
                \<and> (\<forall>b \<in> set (bindings (trace s) @ registrations (trace s)). UUID b \<noteq> u)"
  have "?P (snd (discoverDevices e config_home (st\<lparr>trace := []\<rparr>)))"
  proof (rule discoverDevices_preserves [where P = ?P])
    show "?P (st\<lparr>trace := []\<rparr>)" using ex by simp
    show "?P (emit ev s)" if "inert ev" "?P s" for ev s
      using that by (simp add: inert_def)
    show "?P (stateOf (reconcileNode e (findHome config_home groups') grp device s node))"
      if g: "getGroupedDevices e = Inr groups'"
        and v: "(grp, device, node) \<in> set (visits e groups')" and p: "?P s"
      for groups' grp device node s
    proof -
      let ?w = "accessoryUUID (generate e) node device"
      from g groups have gg: "groups' = groups" by simp
      with home have h: "findHome config_home groups' = Some h" by simp
      show ?thesis
      proof (cases "?w = u")
        case True
        with v out gg have "group_name h \<noteq> group_name grp" by force
        with True p reconcileNode_discard [of e node device s h grp] show ?thesis
          by (simp add: h)
      next
        case False
        from reconcileNode_effect [of e "Some h" grp device s node]
        obtain evs where evs:
          "trace (stateOf (reconcileNode e (Some h) grp device s node)) = trace s @ evs"
          "accessories (stateOf (reconcileNode e (Some h) grp device s node)) = accessories s
           \<or> accessories (stateOf (reconcileNode e (Some h) grp device s node))
               = renameFirst ?w (accessoryName node device) (accessories s)"
          "\<forall>b \<in> set (bindings evs @ registrations evs @ renames evs @ removals evs). UUID b = ?w"
          by blast
        from evs(2) False have "lookup u (accessories (stateOf (reconcileNode e (Some h) grp device s node)))
            = lookup u (accessories s)"
          by (auto simp add: lookup_renameFirst_other)
        with evs(1,3) p False show ?thesis
          by (auto simp add: h)
      qed
    qed
  qed
  then show ?thesis by blast
qed

text \<open>
  When no call fails and the nodes have distinct UUIDs, the removals, the constructions
  and the bindings of a pass are those of its visits, one visit after the other.
\<close>

lemma reconcileNode_remove_trace:
  assumes "dependable e" "lookup (accessoryUUID (generate e) node device) (accessories st) = Some a"
    "mismatch home a"
  shows "\<exists>st'. reconcileNode e home grp device st node = Inr st'
           \<and> accessories st' = accessories st
           \<and> removals (trace st') = removals (trace st) @ [a]
           \<and> filter constructed (trace st') = filter constructed (trace st)
           \<and> bindings (trace st') = bindings (trace st)"
  using assms
  by (auto simp add: dependable_def lookup_def mismatch_def reconcileNode_def removeExisting_def
      Let_def split: option.splits)

lemma same_name: "displayName a = n \<Longrightarrow> a\<lparr>displayName := n\<rparr> = a"
  by (cases a) auto

lemma reconcileNode_restore_trace:
  assumes "dependable e" "lookup (accessoryUUID (generate e) node device) (accessories st) = Some a"
    "\<not> mismatch home a"
  shows "\<exists>st'. reconcileNode e home grp device st node = Inr st'
           \<and> (accessories st' = accessories st
               \<or> accessories st' = renameFirst (accessoryUUID (generate e) node device)
                                      (accessoryName node device) (accessories st))
           \<and> removals (trace st') = removals (trace st)
           \<and> filter constructed (trace st') = filter constructed (trace st)
           \<and> bindings (trace st') = bindings (trace st) @ [a\<lparr>displayName := accessoryName node device\<rparr>]"
proof (cases "displayName a = accessoryName node device")
  case True
  then have "a\<lparr>displayName := accessoryName node device\<rparr> = a" by (rule same_name)
  with True assms show ?thesis
    by (auto simp add: dependable_def lookup_def mismatch_def reconcileNode_def
        restoreExisting_def bindExisting_def Let_def split: option.splits)
next
  case False
  from assms(2) have "UUID a = accessoryUUID (generate e) node device"
    by (rule lookup_UUID)
  with False assms show ?thesis
    by (auto simp add: dependable_def lookup_def mismatch_def reconcileNode_def
        restoreExisting_def bindExisting_def Let_def split: option.splits)
qed

lemma reconcileNode_create_trace:
  assumes "dependable e" "lookup (accessoryUUID (generate e) node device) (accessories st) = None"
  shows "\<exists>st'. reconcileNode e home grp device st node = Inr st'
           \<and> accessories st' = accessories st
           \<and> removals (trace st') = removals (trace st)
           \<and> filter constructed (trace st') = filter constructed (trace st)
                @ [NewPlatformAccessory (accessoryName node device)
                     (accessoryUUID (generate e) node device)]
           \<and> bindings (trace st') = bindings (trace st)
                @ (if admits home grp then [newAccessory e (grp, device, node)] else [])"
  using assms
  by (auto simp add: dependable_def lookup_def admits_def reconcileNode_def createNew_def
      addAccessory_def Let_def split: option.splits)


lemma followedI:
  assumes "\<And>u. u \<notin> set (map (uuidOf e) pre) \<Longrightarrow> lookup u (accessories st) = lookup u L"
    "removals (trace st) = concat (map (removalsAt e home L) pre)"
    "filter constructed (trace st) = concat (map (constructionsAt e L) pre)"
    "bindings (trace st) = concat (map (bindingsAt e home L) pre)"
  shows "followed e home L pre st"
  using assms by (simp add: followed_def)

lemma followed_step:
  assumes dep: "dependable e"
    and inv: "followed e home L pre st"
    and new: "uuidOf e (grp, device, node) \<notin> set (map (uuidOf e) pre)"
  shows "\<exists>st'. reconcileNode e home grp device st node = Inr st'
           \<and> followed e home L (pre @ [(grp, device, node)]) st'"
proof -
  let ?v = "(grp, device, node)"
  let ?w = "accessoryUUID (generate e) node device"
  let ?n = "accessoryName node device"
  from inv have same: "\<And>u. u \<notin> set (map (uuidOf e) pre) \<Longrightarrow> lookup u (accessories st) = lookup u L"
    and rem: "removals (trace st) = concat (map (removalsAt e home L) pre)"
    and con: "filter constructed (trace st) = concat (map (constructionsAt e L) pre)"
    and bnd: "bindings (trace st) = concat (map (bindingsAt e home L) pre)"
    by (simp_all add: followed_def)
  from new have here: "lookup ?w (accessories st) = lookup ?w L"
    using same [of ?w] by simp
  have later: "u \<noteq> ?w \<and> u \<notin> set (map (uuidOf e) pre)"
    if "u \<notin> set (map (uuidOf e) (pre @ [?v]))" for u
    using that by simp
  show ?thesis
  proof (cases "lookup ?w L")
    case None
    with here have l: "lookup ?w (accessories st) = None" by simp
    from reconcileNode_create_trace [OF dep l, of home grp]
    obtain st' where st': "reconcileNode e home grp device st node = Inr st'"
      and acc: "accessories st' = accessories st"
      and r1: "removals (trace st') = removals (trace st)"
      and r2: "filter constructed (trace st') = filter constructed (trace st)
                 @ [NewPlatformAccessory ?n ?w]"
      and r3: "bindings (trace st') = bindings (trace st)
                 @ (if admits home grp then [newAccessory e ?v] else [])"
      by blast
    have at: "removalsAt e home L ?v = []"
      "constructionsAt e L ?v = [NewPlatformAccessory ?n ?w]"
      "bindingsAt e home L ?v = (if admits home grp then [newAccessory e ?v] else [])"
      using None by (simp_all add: removalsAt_def constructionsAt_def bindingsAt_def)
    have "followed e home L (pre @ [?v]) st'"
    proof (rule followedI)
      show "lookup u (accessories st') = lookup u L"
        if "u \<notin> set (map (uuidOf e) (pre @ [?v]))" for u
        using later [OF that] same [of u] by (simp add: acc)
      show "removals (trace st') = concat (map (removalsAt e home L) (pre @ [?v]))"
        by (simp add: r1 rem at del: uuidOf.simps)
      show "filter constructed (trace st') = concat (map (constructionsAt e L) (pre @ [?v]))"
        by (simp add: r2 con at del: uuidOf.simps nameOf.simps)
      show "bindings (trace st') = concat (map (bindingsAt e home L) (pre @ [?v]))"
        by (simp add: r3 bnd at del: uuidOf.simps newAccessory.simps)
    qed
    with st' show ?thesis by blast
  next
    case (Some a)
    with here have l: "lookup ?w (accessories st) = Some a" by simp
    show ?thesis
    proof (cases "mismatch home a")
      case True
      from reconcileNode_remove_trace [OF dep l True, of grp]
      obtain st' where st': "reconcileNode e home grp device st node = Inr st'"
        and acc: "accessories st' = accessories st"
        and r1: "removals (trace st') = removals (trace st) @ [a]"
        and r2: "filter constructed (trace st') = filter constructed (trace st)"
        and r3: "bindings (trace st') = bindings (trace st)"
        by blast
      have at: "removalsAt e home L ?v = [a]" "constructionsAt e L ?v = []"
        "bindingsAt e home L ?v = []"
        using Some True by (simp_all add: removalsAt_def constructionsAt_def bindingsAt_def)
      have "followed e home L (pre @ [?v]) st'"
      proof (rule followedI)
        show "lookup u (accessories st') = lookup u L"
          if "u \<notin> set (map (uuidOf e) (pre @ [?v]))" for u
          using later [OF that] same [of u] by (simp add: acc)
        show "removals (trace st') = concat (map (removalsAt e home L) (pre @ [?v]))"
          by (simp add: r1 rem at del: uuidOf.simps)
        show "filter constructed (trace st') = concat (map (constructionsAt e L) (pre @ [?v]))"
          by (simp add: r2 con at del: uuidOf.simps nameOf.simps)
        show "bindings (trace st') = concat (map (bindingsAt e home L) (pre @ [?v]))"
          by (simp add: r3 bnd at del: uuidOf.simps newAccessory.simps)
      qed
      with st' show ?thesis by blast
    next
      case False
      from reconcileNode_restore_trace [OF dep l False, of grp]
      obtain st' where st': "reconcileNode e home grp device st node = Inr st'"
        and acc: "accessories st' = accessories st
                  \<or> accessories st' = renameFirst ?w ?n (accessories st)"
        and r1: "removals (trace st') = removals (trace st)"
        and r2: "filter constructed (trace st') = filter constructed (trace st)"
        and r3: "bindings (trace st') = bindings (trace st) @ [a\<lparr>displayName := ?n\<rparr>]"
        by blast
      have at: "removalsAt e home L ?v = []" "constructionsAt e L ?v = []"
        "bindingsAt e home L ?v = [a\<lparr>displayName := ?n\<rparr>]"
        using Some False by (simp_all add: removalsAt_def constructionsAt_def bindingsAt_def)
      have "followed e home L (pre @ [?v]) st'"
      proof (rule followedI)
        show "lookup u (accessories st') = lookup u L"
          if "u \<notin> set (map (uuidOf e) (pre @ [?v]))" for u
        proof -
          from later [OF that] have u: "u \<noteq> ?w" "u \<notin> set (map (uuidOf e) pre)" by blast+
          from acc u(1) have "lookup u (accessories st') = lookup u (accessories st)"
            by (auto simp add: lookup_renameFirst_other)
          with same [OF u(2)] show ?thesis by simp
        qed
        show "removals (trace st') = concat (map (removalsAt e home L) (pre @ [?v]))"
          by (simp add: r1 rem at del: uuidOf.simps)
        show "filter constructed (trace st') = concat (map (constructionsAt e L) (pre @ [?v]))"
          by (simp add: r2 con at del: uuidOf.simps nameOf.simps)
        show "bindings (trace st') = concat (map (bindingsAt e home L) (pre @ [?v]))"
          by (simp add: r3 bnd at del: uuidOf.simps newAccessory.simps)
      qed
      with st' show ?thesis by blast
    qed
  qed
qed

lemma followed_emit:
  assumes "followed e home L pre st" "inert ev" "\<not> constructed ev"
  shows "followed e home L pre (emit ev st)"
  using assms by (simp add: followed_def inert_def)

lemma followed_items:
  assumes dep: "dependable e"
    and inv: "followed e home L pre st"
    and dis: "distinct (map (uuidOf e) (pre @ visited xs))"
  shows "\<exists>st'. runItems e home st xs = Inr st' \<and> followed e home L (pre @ visited xs) st'"
  using inv dis
proof (induction xs arbitrary: pre st)
  case Nil
  then show ?case by simp
next
  case (Cons x xs)
  show ?case
  proof (cases x)
    case (Fetch d)
    have "followed e home L pre (emit (GetNodes (dev_id d)) st)"
      using Cons.prems(1) by (rule followed_emit) (simp_all add: inert_def)
    from Cons.IH [OF this] Cons.prems(2) Fetch show ?thesis by simp
  next
    case (Skip d)
    have "followed e home L pre
            (emit (Log Warn [S (''No nodes found for device: '' @ dev_name d)]) st)"
      using Cons.prems(1) by (rule followed_emit) (simp_all add: inert_def)
    from Cons.IH [OF this] Cons.prems(2) Skip show ?thesis by simp
  next
    case (Visit g d n)
    from Cons.prems(2) Visit have new: "uuidOf e (g, d, n) \<notin> set (map (uuidOf e) pre)"
      by auto
    from followed_step [OF dep Cons.prems(1) new]
    obtain st1 where st1: "reconcileNode e home g d st n = Inr st1"
      "followed e home L (pre @ [(g, d, n)]) st1"
      by blast
    from Cons.prems(2) Visit have "distinct (map (uuidOf e) ((pre @ [(g, d, n)]) @ visited xs))"
      by simp
    from Cons.IH [OF st1(2) this] st1(1) Visit show ?thesis by simp
  qed
qed

lemma pass_followed:
  assumes client: "newHelkiClient e = None" "getGroupedDevices e = Inr groups"
    and nodes: "\<forall>grp \<in> set groups. \<forall>device \<in> set (devs grp). \<exists>ns. getNodes e (dev_id device) = Inr ns"
    and dep: "dependable e"
    and dV: "distinct (map (uuidOf e) (visits e groups))"
  shows "followed e (findHome config_home groups) (accessories st) (visits e groups)
           (snd (discoverDevices e config_home (st\<lparr>trace := []\<rparr>)))"
proof -
  let ?home = "findHome config_home groups"
  let ?st2 = "emit GetGroupedDevices (emit NewHelkiClient (st\<lparr>trace := []\<rparr>))"
  have "followed e ?home (accessories st) [] ?st2"
    by (simp add: followed_def)
  from followed_items [OF dep this, of "passItems e groups"] dV
  obtain st' where "runItems e ?home ?st2 (passItems e groups) = Inr st'"
    "followed e ?home (accessories st) (visits e groups) st'"
    by (auto simp add: visited_passItems)
  then show ?thesis
    using client forGroups_flat [OF nodes, of ?home ?st2]
    by (simp add: discoverDevices_def discoverBody_def Let_def)
qed

text \<open>The whole pass, read off the first list and the visits.\<close>

lemma pass_trace:
  assumes "newHelkiClient e = None" "getGroupedDevices e = Inr groups"
    and "\<forall>grp \<in> set groups. \<forall>device \<in> set (devs grp). \<exists>ns. getNodes e (dev_id device) = Inr ns"
    and "dependable e"
    and "distinct (map (uuidOf e) (visits e groups))"
  shows "removals (trace (snd (discoverDevices e config_home (st\<lparr>trace := []\<rparr>))))
           = concat (map (removalsAt e (findHome config_home groups) (accessories st))
                       (visits e groups))"
    and "filter constructed (trace (snd (discoverDevices e config_home (st\<lparr>trace := []\<rparr>))))
           = concat (map (constructionsAt e (accessories st)) (visits e groups))"
    and "bindings (trace (snd (discoverDevices e config_home (st\<lparr>trace := []\<rparr>))))
           = concat (map (bindingsAt e (findHome config_home groups) (accessories st))
                       (visits e groups))"
  using pass_followed [OF assms, of config_home st] by (simp_all add: followed_def)

lemma filter_concat_at:
  assumes "distinct (map f V)" "v \<in> set V"
    and "\<And>w a. w \<in> set V \<Longrightarrow> a \<in> set (g w) \<Longrightarrow> k a = f w"
  shows "filter (\<lambda>a. k a = f v) (concat (map g V)) = g v"
  using assms
proof (induction V)
  case Nil
  then show ?case by simp
next
  case (Cons w V)
  have key: "\<And>x a. x \<in> set V \<Longrightarrow> a \<in> set (g x) \<Longrightarrow> k a = f x"
    using Cons.prems(3) by simp
  have head: "\<And>a. a \<in> set (g w) \<Longrightarrow> k a = f w"
    using Cons.prems(3) by simp
  from Cons.prems(1) have d: "distinct (map f V)" and nw: "\<And>x. x \<in> set V \<Longrightarrow> f x \<noteq> f w"
    by (auto simp add: image_iff)
  show ?case
  proof (cases "v = w")
    case True
    have "filter (\<lambda>a. k a = f w) (g w) = g w"
      using head by (intro filter_True) blast
    moreover have "filter (\<lambda>a. k a = f w) (concat (map g V)) = []"
      using key nw by (auto simp add: filter_empty_conv)
    ultimately show ?thesis using True by simp
  next
    case False
    with Cons.prems(2) have v: "v \<in> set V" by simp
    then have "f v \<noteq> f w" by (rule nw)
    then have "filter (\<lambda>a. k a = f v) (g w) = []"
      using head by (auto simp add: filter_empty_conv)
    moreover have "filter (\<lambda>a. k a = f v) (concat (map g V)) = g v"
      using d v key by (rule Cons.IH)
    ultimately show ?thesis by simp
  qed
qed

lemma UUID_removalsAt: "a \<in> set (removalsAt e home L w) \<Longrightarrow> UUID a = uuidOf e w"
  by (auto simp add: removalsAt_def lookup_UUID split: option.splits if_splits)

lemma UUID_bindingsAt: "a \<in> set (bindingsAt e home L w) \<Longrightarrow> UUID a = uuidOf e w"
  by (auto simp add: bindingsAt_def lookup_UUID UUID_newAccessory split: option.splits if_splits
      simp del: newAccessory.simps)

lemma pass_at_visit:
  assumes client: "newHelkiClient e = None" "getGroupedDevices e = Inr groups"
    and nodes: "\<forall>grp \<in> set groups. \<forall>device \<in> set (devs grp). \<exists>ns. getNodes e (dev_id device) = Inr ns"
    and dep: "dependable e"
    and dV: "distinct (map (uuidOf e) (visits e groups))"
    and v: "v \<in> set (visits e groups)"
  shows "filter (\<lambda>a. UUID a = uuidOf e v)
           (removals (trace (snd (discoverDevices e config_home (st\<lparr>trace := []\<rparr>)))))
         = removalsAt e (findHome config_home groups) (accessories st) v"
    and "filter (\<lambda>a. UUID a = uuidOf e v)
           (bindings (trace (snd (discoverDevices e config_home (st\<lparr>trace := []\<rparr>)))))
         = bindingsAt e (findHome config_home groups) (accessories st) v"
    and "set (constructionsAt e (accessories st) v)
         \<subseteq> set (trace (snd (discoverDevices e config_home (st\<lparr>trace := []\<rparr>))))"
    and "fresh e (findHome config_home groups) (accessories st) v
         \<longleftrightarrow> uuidOf e v \<in> set (map UUID (registrations
               (trace (snd (discoverDevices e config_home (st\<lparr>trace := []\<rparr>))))))"
proof -
  let ?p = "snd (discoverDevices e config_home (st\<lparr>trace := []\<rparr>))"
  let ?home = "findHome config_home groups"
  note tr = pass_trace [OF client nodes dep dV, of config_home st]
  show "filter (\<lambda>a. UUID a = uuidOf e v) (removals (trace ?p))
         = removalsAt e ?home (accessories st) v"
    unfolding tr(1) using dV v by (rule filter_concat_at) (rule UUID_removalsAt)
  show "filter (\<lambda>a. UUID a = uuidOf e v) (bindings (trace ?p))
         = bindingsAt e ?home (accessories st) v"
    unfolding tr(2) tr(3) using dV v by (rule filter_concat_at) (rule UUID_bindingsAt)
  have "set (constructionsAt e (accessories st) v) \<subseteq> set (filter constructed (trace ?p))"
    unfolding tr(2) using v by auto
  then show "set (constructionsAt e (accessories st) v) \<subseteq> set (trace ?p)"
    by auto
  have inv: "reconciled e ?home (accessories st) (visits e groups) ?p"
    using client nodes dep dV by (rule first_pass)
  then have "map UUID (registrations (trace ?p))
      = map (uuidOf e) (filter (fresh e ?home (accessories st)) (visits e groups))"
    by (simp add: reconciled_def comp_def UUID_newAccessory)
  with mem_filtered [OF dV v, of "fresh e ?home (accessories st)"]
  show "fresh e ?home (accessories st) v
         \<longleftrightarrow> uuidOf e v \<in> set (map UUID (registrations (trace ?p)))"
    by simp
qed

lemma pass_unregisters:
  assumes "newHelkiClient e = None \<and> getGroupedDevices e = Inr groups
      \<and> (\<forall>grp \<in> set groups. \<forall>device \<in> set (devs grp). \<exists>ns. getNodes e (dev_id device) = Inr ns)
      \<and> dependable e
      \<and> distinct (map (uuidOf e) (visits e groups))
      \<and> findHome config_home groups = Some h
      \<and> v \<in> set (visits e groups)
      \<and> lookup (uuidOf e v) (accessories st) = Some existing
      \<and> ctx_home existing \<noteq> group_name h"
  shows "filter (\<lambda>b. UUID b = uuidOf e v)
           (removals (trace (snd (discoverDevices e config_home (st\<lparr>trace := []\<rparr>))))) = [existing]
       \<and> filter (\<lambda>b. UUID b = uuidOf e v)
           (bindings (trace (snd (discoverDevices e config_home (st\<lparr>trace := []\<rparr>))))) = []"
proof -
  from assms have a: "newHelkiClient e = None" "getGroupedDevices e = Inr groups"
    "\<forall>grp \<in> set groups. \<forall>device \<in> set (devs grp). \<exists>ns. getNodes e (dev_id device) = Inr ns"
    "dependable e" "distinct (map (uuidOf e) (visits e groups))" "v \<in> set (visits e groups)"
    and h: "findHome config_home groups = Some h"
    and l: "lookup (uuidOf e v) (accessories st) = Some existing"
    and m: "ctx_home existing \<noteq> group_name h"
    by blast+
  from l m have at: "removalsAt e (Some h) (accessories st) v = [existing]"
    "bindingsAt e (Some h) (accessories st) v = []"
    by (simp_all add: removalsAt_def bindingsAt_def mismatch_def)
  note p = pass_at_visit [OF a, where config_home = config_home and st = st]
  from p(1,2) at h show ?thesis by simp
qed

lemma pass_discards:
  assumes "newHelkiClient e = None \<and> getGroupedDevices e = Inr groups
      \<and> (\<forall>grp \<in> set groups. \<forall>device \<in> set (devs grp). \<exists>ns. getNodes e (dev_id device) = Inr ns)
      \<and> dependable e
      \<and> distinct (map (uuidOf e) (visits e groups))
      \<and> findHome config_home groups = Some h
      \<and> v \<in> set (visits e groups)
      \<and> lookup (uuidOf e v) (accessories st) = None
      \<and> group_name h \<noteq> group_name (fst v)"
  shows "NewPlatformAccessory (nameOf v) (uuidOf e v)
           \<in> set (trace (snd (discoverDevices e config_home (st\<lparr>trace := []\<rparr>))))
       \<and> filter (\<lambda>b. UUID b = uuidOf e v)
           (bindings (trace (snd (discoverDevices e config_home (st\<lparr>trace := []\<rparr>))))) = []
       \<and> uuidOf e v \<notin> set (map UUID (registrations
               (trace (snd (discoverDevices e config_home (st\<lparr>trace := []\<rparr>))))))"
proof -
  from assms have a: "newHelkiClient e = None" "getGroupedDevices e = Inr groups"
    "\<forall>grp \<in> set groups. \<forall>device \<in> set (devs grp). \<exists>ns. getNodes e (dev_id device) = Inr ns"
    "dependable e" "distinct (map (uuidOf e) (visits e groups))" "v \<in> set (visits e groups)"
    and h: "findHome config_home groups = Some h"
    and l: "lookup (uuidOf e v) (accessories st) = None"
    and m: "group_name h \<noteq> group_name (fst v)"
    by blast+
  from l m have at: "constructionsAt e (accessories st) v = [NewPlatformAccessory (nameOf v) (uuidOf e v)]"
    "bindingsAt e (Some h) (accessories st) v = []"
    "\<not> fresh e (Some h) (accessories st) v"
    by (simp_all add: constructionsAt_def bindingsAt_def fresh_def admits_def)
  note p = pass_at_visit [OF a, where config_home = config_home and st = st]
  from p(3) at(1) have 1: "NewPlatformAccessory (nameOf v) (uuidOf e v)
           \<in> set (trace (snd (discoverDevices e config_home (st\<lparr>trace := []\<rparr>))))"
    by simp
  from p(2) at(2) h have 2: "filter (\<lambda>b. UUID b = uuidOf e v)
           (bindings (trace (snd (discoverDevices e config_home (st\<lparr>trace := []\<rparr>))))) = []"
    by simp
  from p(4) at(3) h have 3: "uuidOf e v \<notin> set (map UUID (registrations
               (trace (snd (discoverDevices e config_home (st\<lparr>trace := []\<rparr>))))))"
    by simp
  from 1 2 3 show ?thesis by blast
qed

text \<open>
  C2. With a home filter active (the configured home was found, \<open>h\<close>), the two mismatch
  branches differ. A node whose accessory exists with a recorded home other than
  \<open>h\<close>'s name: the step completes, \<open>unregisterPlatformAccessories\<close> is called with
  that accessory, and no controller is bound, nothing renamed or registered. A node
  with no accessory, in a group whose name is not \<open>h\<close>'s: the accessory record is
  constructed and nothing else happens, neither a registration nor a controller. Over
  the whole pass, whatever fails: no controller is bound to an accessory of the list
  that is out of the home, and none is bound and nothing registered under a UUID that
  is not in the list and whose nodes are all in other groups than \<open>h\<close>. And in a pass
  in which no call fails and the nodes have distinct UUIDs, the pass does reach both
  branches: it unregisters the mismatched accessory of a node, once, and binds nothing
  under its UUID; and it constructs the record of a new node of another group, and
  binds and registers nothing under its UUID.
\<close>

theorem home_mismatch_branches:
  "(lookup (accessoryUUID (generate e) node device) (accessories st) = Some existing
      \<and> ctx_home existing \<noteq> group_name h
    \<longrightarrow> (\<exists>st'. reconcileNode e (Some h) grp device st node = Inr st'
          \<and> accessories st' = accessories st
          \<and> removals (trace st') = removals (trace st) @ [existing]
          \<and> bindings (trace st') = bindings (trace st)
          \<and> renames (trace st') = renames (trace st)
          \<and> registrations (trace st') = registrations (trace st)))
   \<and> (lookup (accessoryUUID (generate e) node device) (accessories st) = None
      \<and> group_name h \<noteq> group_name grp
    \<longrightarrow> accessories (stateOf (reconcileNode e (Some h) grp device st node)) = accessories st
        \<and> trace (stateOf (reconcileNode e (Some h) grp device st node))
            = trace st @ [NewPlatformAccessory (accessoryName node device)
                            (accessoryUUID (generate e) node device)])
   \<and> (getGroupedDevices e = Inr groups \<and> findHome config_home groups = Some h
      \<and> lookup u (accessories st) = Some a \<and> ctx_home a \<noteq> group_name h
    \<longrightarrow> (\<forall>b \<in> set (bindings (trace (snd (discoverDevices e config_home (st\<lparr>trace := []\<rparr>))))).
           UUID b \<noteq> u))
   \<and> (getGroupedDevices e = Inr groups \<and> findHome config_home groups = Some h
      \<and> lookup u (accessories st) = None
      \<and> (\<forall>v \<in> set (visits e groups). uuidOf e v = u \<longrightarrow> group_name h \<noteq> group_name (fst v))
    \<longrightarrow> (\<forall>b \<in> set (bindings (trace (snd (discoverDevices e config_home (st\<lparr>trace := []\<rparr>))))
                      @ registrations (trace (snd (discoverDevices e config_home (st\<lparr>trace := []\<rparr>))))).
           UUID b \<noteq> u))
   \<and> (newHelkiClient e = None \<and> getGroupedDevices e = Inr groups
      \<and> (\<forall>grp \<in> set groups. \<forall>device \<in> set (devs grp). \<exists>ns. getNodes e (dev_id device) = Inr ns)
      \<and> dependable e
      \<and> distinct (map (uuidOf e) (visits e groups))
      \<and> findHome config_home groups = Some h
      \<and> v \<in> set (visits e groups)
      \<and> lookup (uuidOf e v) (accessories st) = Some existing
      \<and> ctx_home existing \<noteq> group_name h
    \<longrightarrow> filter (\<lambda>b. UUID b = uuidOf e v)
           (removals (trace (snd (discoverDevices e config_home (st\<lparr>trace := []\<rparr>))))) = [existing]
        \<and> filter (\<lambda>b. UUID b = uuidOf e v)
           (bindings (trace (snd (discoverDevices e config_home (st\<lparr>trace := []\<rparr>))))) = [])
   \<and> (newHelkiClient e = None \<and> getGroupedDevices e = Inr groups
      \<and> (\<forall>grp \<in> set groups. \<forall>device \<in> set (devs grp). \<exists>ns. getNodes e (dev_id device) = Inr ns)
      \<and> dependable e
      \<and> distinct (map (uuidOf e) (visits e groups))
      \<and> findHome config_home groups = Some h
      \<and> v \<in> set (visits e groups)
      \<and> lookup (uuidOf e v) (accessories st) = None
      \<and> group_name h \<noteq> group_name (fst v)
    \<longrightarrow> NewPlatformAccessory (nameOf v) (uuidOf e v)
           \<in> set (trace (snd (discoverDevices e config_home (st\<lparr>trace := []\<rparr>))))
        \<and> filter (\<lambda>b. UUID b = uuidOf e v)
           (bindings (trace (snd (discoverDevices e config_home (st\<lparr>trace := []\<rparr>))))) = []
        \<and> uuidOf e v \<notin> set (map UUID (registrations
               (trace (snd (discoverDevices e config_home (st\<lparr>trace := []\<rparr>)))))))"
proof (intro conjI)
  show "lookup (accessoryUUID (generate e) node device) (accessories st) = Some existing
      \<and> ctx_home existing \<noteq> group_name h
    \<longrightarrow> (\<exists>st'. reconcileNode e (Some h) grp device st node = Inr st'
          \<and> accessories st' = accessories st
          \<and> removals (trace st') = removals (trace st) @ [existing]
          \<and> bindings (trace st') = bindings (trace st)
          \<and> renames (trace st') = renames (trace st)
          \<and> registrations (trace st') = registrations (trace st))"
    using reconcileNode_mismatch [of e node device st existing h grp] by blast
  show "lookup (accessoryUUID (generate e) node device) (accessories st) = None
      \<and> group_name h \<noteq> group_name grp
    \<longrightarrow> accessories (stateOf (reconcileNode e (Some h) grp device st node)) = accessories st
        \<and> trace (stateOf (reconcileNode e (Some h) grp device st node))
            = trace st @ [NewPlatformAccessory (accessoryName node device)
                            (accessoryUUID (generate e) node device)]"
    using reconcileNode_discard [of e node device st h grp] by blast
  show "getGroupedDevices e = Inr groups \<and> findHome config_home groups = Some h
      \<and> lookup u (accessories st) = Some a \<and> ctx_home a \<noteq> group_name h
    \<longrightarrow> (\<forall>b \<in> set (bindings (trace (snd (discoverDevices e config_home (st\<lparr>trace := []\<rparr>))))).
           UUID b \<noteq> u)"
    using never_bound [of e groups config_home h u st a] by blast
  show "getGroupedDevices e = Inr groups \<and> findHome config_home groups = Some h
      \<and> lookup u (accessories st) = None
      \<and> (\<forall>v \<in> set (visits e groups). uuidOf e v = u \<longrightarrow> group_name h \<noteq> group_name (fst v))
    \<longrightarrow> (\<forall>b \<in> set (bindings (trace (snd (discoverDevices e config_home (st\<lparr>trace := []\<rparr>))))
                      @ registrations (trace (snd (discoverDevices e config_home (st\<lparr>trace := []\<rparr>))))).
           UUID b \<noteq> u)"
    using never_created [of e groups config_home h u st] by blast
  show "newHelkiClient e = None \<and> getGroupedDevices e = Inr groups
      \<and> (\<forall>grp \<in> set groups. \<forall>device \<in> set (devs grp). \<exists>ns. getNodes e (dev_id device) = Inr ns)
      \<and> dependable e
      \<and> distinct (map (uuidOf e) (visits e groups))
      \<and> findHome config_home groups = Some h
      \<and> v \<in> set (visits e groups)
      \<and> lookup (uuidOf e v) (accessories st) = Some existing
      \<and> ctx_home existing \<noteq> group_name h
    \<longrightarrow> filter (\<lambda>b. UUID b = uuidOf e v)
           (removals (trace (snd (discoverDevices e config_home (st\<lparr>trace := []\<rparr>))))) = [existing]
        \<and> filter (\<lambda>b. UUID b = uuidOf e v)
           (bindings (trace (snd (discoverDevices e config_home (st\<lparr>trace := []\<rparr>))))) = []"
    by (rule impI) (rule pass_unregisters)
  show "newHelkiClient e = None \<and> getGroupedDevices e = Inr groups
      \<and> (\<forall>grp \<in> set groups. \<forall>device \<in> set (devs grp). \<exists>ns. getNodes e (dev_id device) = Inr ns)
      \<and> dependable e
      \<and> distinct (map (uuidOf e) (visits e groups))
      \<and> findHome config_home groups = Some h
      \<and> v \<in> set (visits e groups)
      \<and> lookup (uuidOf e v) (accessories st) = None
      \<and> group_name h \<noteq> group_name (fst v)
    \<longrightarrow> NewPlatformAccessory (nameOf v) (uuidOf e v)
           \<in> set (trace (snd (discoverDevices e config_home (st\<lparr>trace := []\<rparr>))))
        \<and> filter (\<lambda>b. UUID b = uuidOf e v)
           (bindings (trace (snd (discoverDevices e config_home (st\<lparr>trace := []\<rparr>))))) = []
        \<and> uuidOf e v \<notin> set (map UUID (registrations
               (trace (snd (discoverDevices e config_home (st\<lparr>trace := []\<rparr>))))))"
    by (rule impI) (rule pass_discards)
qed

theorem home_mismatch_branches_witness:
  "(lookup (accessoryUUID (generate household) bare stove) [cached, cachedStove] = Some cachedStove
      \<and> ctx_home cachedStove \<noteq> group_name (house ! 0))
   \<and> (\<exists>st'. reconcileNode household (Some (house ! 0)) (house ! 1) stove
               \<lparr>accessories = [cached, cachedStove], trace = []\<rparr> bare = Inr st'
          \<and> removals (trace st') = [cachedStove] \<and> bindings (trace st') = [])
   \<and> (lookup (accessoryUUID (generate household) bare stove) [] = None
      \<and> group_name (house ! 0) \<noteq> group_name (house ! 1))
   \<and> trace (stateOf (reconcileNode household (Some (house ! 0)) (house ! 1) stove
               \<lparr>accessories = [], trace = []\<rparr> bare))
       = [NewPlatformAccessory ''Stove'' ''d3'']
   \<and> findHome (Some ''A'') house = Some (house ! 0)
   \<and> ''d3'' \<notin> set (map UUID (bindings (trace (snd (discoverDevices household (Some ''A'')
                        \<lparr>accessories = [cached, cachedStove], trace = []\<rparr>)))))
   \<and> ''d3'' \<notin> set (map UUID (bindings (trace (snd (discoverDevices household (Some ''A'')
                        \<lparr>accessories = [], trace = []\<rparr>)))
                  @ registrations (trace (snd (discoverDevices household (Some ''A'')
                        \<lparr>accessories = [], trace = []\<rparr>)))))
   \<and> distinct (map (uuidOf household) (visits household house))
   \<and> filter (\<lambda>b. UUID b = ''d3'')
        (removals (trace (snd (discoverDevices household (Some ''A'')
                        \<lparr>accessories = [cached, cachedStove], trace = []\<rparr>)))) = [cachedStove]
   \<and> NewPlatformAccessory ''Stove'' ''d3''
        \<in> set (trace (snd (discoverDevices household (Some ''A'')
                        \<lparr>accessories = [], trace = []\<rparr>)))"
proof -
  let ?full = "\<lparr>accessories = [cached, cachedStove], trace = []\<rparr>"
  let ?empty = "\<lparr>accessories = ([] :: PlatformAccessory list), trace = []\<rparr>"
  let ?v = "(house ! 1, stove, bare)"
  have g: "generate household = id" "getGroupedDevices household = Inr house"
    "newHelkiClient household = None"
    by (simp_all add: household_def reliable_def)
  have d: "dependable household"
    by (simp add: dependable_def household_def reliable_def)
  have n: "accessoryUUID (generate household) bare stove = ''d3''"
    "accessoryName bare stove = ''Stove''"
    by (simp_all add: g accessoryUUID_def accessoryName_def js_or_def bare_def stove_def)
  have v: "visits household house = [(house ! 0, heater, hall), ?v]"
    by (simp add: visits_def nodesOf_def household_def house_def heater_def towelRail_def
        stove_def)
  have us: "map (uuidOf household) (visits household house) = [''n1'', ''d3'']"
    unfolding v by (simp add: g accessoryUUID_def js_or_def hall_def bare_def stove_def)
  have f: "findHome (Some ''A'') house = Some (house ! 0)"
    by (simp add: findHome_def house_def)
  have h1: "lookup ''d3'' (accessories ?full) = Some cachedStove
      \<and> ctx_home cachedStove \<noteq> group_name (house ! 0)"
    by (simp add: lookup_def cached_def cachedStove_def house_def)
  have h2: "lookup ''d3'' (accessories ?empty) = None
      \<and> group_name (house ! 0) \<noteq> group_name (house ! 1)"
    by (simp add: lookup_def house_def)
  have h3: "\<forall>v \<in> set (visits household house).
              uuidOf household v = ''d3'' \<longrightarrow> group_name (house ! 0) \<noteq> group_name (fst v)"
    unfolding v by (simp add: g accessoryUUID_def js_or_def hall_def house_def)
  have h4: "\<forall>grp \<in> set house. \<forall>device \<in> set (devs grp).
              \<exists>ns. getNodes household (dev_id device) = Inr ns"
    by (simp add: household_def house_def)
  have h5: "distinct (map (uuidOf household) (visits household house))"
    by (simp add: us)
  have h6: "?v \<in> set (visits household house)" "uuidOf household ?v = ''d3''"
    "nameOf ?v = ''Stove''" "fst ?v = house ! 1"
    by (simp_all add: v n)
  note t1 = home_mismatch_branches [where e = household and node = bare and device = stove
      and st = ?full and existing = cachedStove and h = "house ! 0" and grp = "house ! 1"
      and groups = house and config_home = "Some ''A''" and u = "''d3''" and a = cachedStove
      and v = ?v]
  note t2 = home_mismatch_branches [where e = household and node = bare and device = stove
      and st = ?empty and existing = cachedStove and h = "house ! 0" and grp = "house ! 1"
      and groups = house and config_home = "Some ''A''" and u = "''d3''" and a = cachedStove
      and v = ?v]
  from t1 [THEN conjunct1] h1
  have c1: "\<exists>st'. reconcileNode household (Some (house ! 0)) (house ! 1) stove ?full bare
            = Inr st'
          \<and> removals (trace st') = [cachedStove] \<and> bindings (trace st') = []"
    unfolding n by auto
  from t2 [THEN conjunct2, THEN conjunct1] h2
  have c2: "trace (stateOf (reconcileNode household (Some (house ! 0)) (house ! 1) stove
               ?empty bare)) = [NewPlatformAccessory ''Stove'' ''d3'']"
    unfolding n by simp
  from t1 [THEN conjunct2, THEN conjunct2, THEN conjunct1] h1 g f
  have c3: "\<forall>b \<in> set (bindings (trace (snd (discoverDevices household (Some ''A'')
                        ?full)))). UUID b \<noteq> ''d3''"
    by simp
  from t2 [THEN conjunct2, THEN conjunct2, THEN conjunct2, THEN conjunct1] h2 h3 g f
  have c4: "\<forall>b \<in> set (bindings (trace (snd (discoverDevices household (Some ''A'')
                        ?empty)))
                  @ registrations (trace (snd (discoverDevices household (Some ''A'')
                        ?empty)))). UUID b \<noteq> ''d3''"
    by simp
  from t1 [THEN conjunct2, THEN conjunct2, THEN conjunct2, THEN conjunct2, THEN conjunct1]
    h1 h4 h5 h6 g d f
  have c5: "filter (\<lambda>b. UUID b = ''d3'')
        (removals (trace (snd (discoverDevices household (Some ''A'') ?full)))) = [cachedStove]"
    by (simp add: n)
  from t2 [THEN conjunct2, THEN conjunct2, THEN conjunct2, THEN conjunct2, THEN conjunct2]
    h2 h4 h5 h6 g d f
  have c6: "NewPlatformAccessory ''Stove'' ''d3''
        \<in> set (trace (snd (discoverDevices household (Some ''A'') ?empty)))"
    by (simp add: n)
  from c3 have d3: "''d3'' \<notin> set (map UUID (bindings (trace (snd (discoverDevices household
                        (Some ''A'') ?full)))))"
    by force
  from c4 have d4: "''d3'' \<notin> set (map UUID (bindings (trace (snd (discoverDevices household
                        (Some ''A'') ?empty)))
                  @ registrations (trace (snd (discoverDevices household (Some ''A'')
                        ?empty)))))"
    by force
  from h1 h2 c1 c2 f d3 d4 h5 c5 c6 show ?thesis
    unfolding n by simp
qed

section \<open>The controller\<close>

lemma parseFloat_19_5: "parseFloat ''19.5'' = Num (39 / 2)"
  by code_simp

lemma parseFloat_21_0: "parseFloat ''21.0'' = Num 21"
  by code_simp

text \<open>
  C4. The status \<open>{mtemp: "19.5", stemp: "21.0", mode: "auto", active: true}\<close> leaves the
  service at current temperature 19.5, target temperature 21, target state AUTO and
  current state HEAT. Any status with mode \<open>off\<close> sets the target state to OFF, and any
  status that is not active sets the current state to OFF.
\<close>

theorem onDeviceUpdate_projection:
  "r_service (onDeviceUpdate \<lparr>mtemp = ''19.5'', stemp = ''21.0'', mode = ''auto'', active = True\<rparr> r)
     = \<lparr>CurrentTemperature = Num (39 / 2), TargetTemperature = Num 21,
        TargetHeatingCoolingState = TargetHeatingCoolingState_AUTO,
        CurrentHeatingCoolingState = CurrentHeatingCoolingState_HEAT\<rparr>
   \<and> TargetHeatingCoolingState (r_service (onDeviceUpdate (status\<lparr>mode := ''off''\<rparr>) r))
       = TargetHeatingCoolingState_OFF
   \<and> CurrentHeatingCoolingState (r_service (onDeviceUpdate (status\<lparr>active := False\<rparr>) r))
       = CurrentHeatingCoolingState_OFF"
  by (simp add: onDeviceUpdate_def updateTargetState_def parseFloat_19_5 parseFloat_21_0 Let_def)

text \<open>
  C9. A status whose mode is none of \<open>auto\<close>, \<open>modified_auto\<close>, \<open>manual\<close> and \<open>off\<close>
  leaves the target state as it was; the two temperatures and the current state are
  still set from \<open>mtemp\<close>, \<open>stemp\<close> and \<open>active\<close>. The handler is a total function: it
  has no failing branch.
\<close>

theorem onDeviceUpdate_unknown_mode:
  assumes "mode status \<noteq> ''auto''" "mode status \<noteq> ''modified_auto''"
    "mode status \<noteq> ''manual''" "mode status \<noteq> ''off''"
  shows "TargetHeatingCoolingState (r_service (onDeviceUpdate status r))
           = TargetHeatingCoolingState (r_service r)
         \<and> CurrentTemperature (r_service (onDeviceUpdate status r)) = parseFloat (mtemp status)
         \<and> TargetTemperature (r_service (onDeviceUpdate status r)) = parseFloat (stemp status)
         \<and> CurrentHeatingCoolingState (r_service (onDeviceUpdate status r))
             = (if active status then CurrentHeatingCoolingState_HEAT
                else CurrentHeatingCoolingState_OFF)"
  using assms by (simp add: onDeviceUpdate_def updateTargetState_def Let_def)

theorem onDeviceUpdate_unknown_mode_witness:
  "r_service (onDeviceUpdate \<lparr>mtemp = ''19.5'', stemp = ''21.0'', mode = ''eco'', active = True\<rparr>
       controller)
     = \<lparr>CurrentTemperature = Num (39 / 2), TargetTemperature = Num 21,
        TargetHeatingCoolingState = TargetHeatingCoolingState_AUTO,
        CurrentHeatingCoolingState = CurrentHeatingCoolingState_HEAT\<rparr>"
  using onDeviceUpdate_unknown_mode
    [of "\<lparr>mtemp = ''19.5'', stemp = ''21.0'', mode = ''eco'', active = True\<rparr>" controller]
  by (simp add: parseFloat_19_5 parseFloat_21_0 controller_def idle_def)

lemma char_of_48: "char_of (48::nat) = CHR ''0''"
  by code_simp

lemma digitsOf_split:
  "butlast (if length (digitsOf n) \<le> 1 then ''0'' @ digitsOf n else digitsOf n) = digitsOf (n div 10)
   \<and> [last (if length (digitsOf n) \<le> 1 then ''0'' @ digitsOf n else digitsOf n)] = digitsOf (n mod 10)"
proof (cases "n < 10")
  case True
  then show ?thesis by (simp add: char_of_48)
next
  case False
  have "digitsOf (n div 10) \<noteq> []" by (subst digitsOf.simps) simp
  with False show ?thesis
    by (subst (1 2 3 4 5 6) digitsOf.simps) (simp add: Suc_le_eq)
qed

text \<open>
  C5. Writing a value to the target temperature sends one command, to the device and
  node of the accessory, with the fields \<open>stemp\<close>, \<open>mode: 'manual'\<close> and \<open>units: 'C'\<close>,
  where \<open>stemp\<close> is \<open>Number(value).toFixed(1)\<close>; a line is logged after it only when
  the command fails. For a finite value below \<open>10 ^ 21\<close> in magnitude that string is
  the sign, the digits of the nearest number of tenths without the last, a point, and
  the last digit. Writing 20 sends \<open>stemp: "20.0"\<close>.
\<close>

theorem setTargetTemperature_command:
  "setTargetTemperature numberToString setStatus r v
     = (Resolved,
        SetStatus (dev_id (ctx_device (r_accessory r))) (r_node r)
          [(''stemp'', toFixed1 numberToString (Number v)), (''mode'', ''manual''), (''units'', ''C'')]
        # (case setStatus (dev_id (ctx_device (r_accessory r))) (r_node r)
                  [(''stemp'', toFixed1 numberToString (Number v)), (''mode'', ''manual''),
                   (''units'', ''C'')] of
             None \<Rightarrow> []
           | Some error \<Rightarrow> [LogError [S ''Failed to set target temperature:'', E error]]))
   \<and> (\<bar>q\<bar> < 10 ^ 21 \<longrightarrow>
        toFixed1 numberToString (Number (VNumber (Num q)))
          = (if q < 0 then ''-'' else []) @ digitsOf (nat \<lfloor>\<bar>q\<bar> * 10 + 1 / 2\<rfloor> div 10)
              @ ''.'' @ digitsOf (nat \<lfloor>\<bar>q\<bar> * 10 + 1 / 2\<rfloor> mod 10))
   \<and> toFixed1 numberToString (Number (VNumber (Num 20))) = ''20.0''"
proof (intro conjI impI)
  show "setTargetTemperature numberToString setStatus r v
     = (Resolved,
        SetStatus (dev_id (ctx_device (r_accessory r))) (r_node r)
          [(''stemp'', toFixed1 numberToString (Number v)), (''mode'', ''manual''), (''units'', ''C'')]
        # (case setStatus (dev_id (ctx_device (r_accessory r))) (r_node r)
                  [(''stemp'', toFixed1 numberToString (Number v)), (''mode'', ''manual''),
                   (''units'', ''C'')] of
             None \<Rightarrow> []
           | Some error \<Rightarrow> [LogError [S ''Failed to set target temperature:'', E error]]))"
    by (simp add: setTargetTemperature_def Let_def split: option.splits)
next
  assume "\<bar>q\<bar> < 10 ^ 21"
  then show "toFixed1 numberToString (Number (VNumber (Num q)))
          = (if q < 0 then ''-'' else []) @ digitsOf (nat \<lfloor>\<bar>q\<bar> * 10 + 1 / 2\<rfloor> div 10)
              @ ''.'' @ digitsOf (nat \<lfloor>\<bar>q\<bar> * 10 + 1 / 2\<rfloor> mod 10)"
    using digitsOf_split [of "nat \<lfloor>\<bar>q\<bar> * 10 + 1 / 2\<rfloor>"]
    by (simp add: toFixed1_def Let_def del: digitsOf.simps)
next
  show "toFixed1 numberToString (Number (VNumber (Num 20))) = ''20.0''"
    by code_simp
qed

theorem setTargetTemperature_command_witness:
  "\<bar>- (43 / 2) :: rat\<bar> < 10 ^ 21
   \<and> toFixed1 (\<lambda>q. []) (Number (VNumber (Num (- (43 / 2))))) = ''-21.5''
   \<and> setTargetTemperature (\<lambda>q. []) (\<lambda>d n fs. None) controller (VNumber (Num 20))
       = (Resolved, [SetStatus ''d1'' hall [(''stemp'', ''20.0''), (''mode'', ''manual''), (''units'', ''C'')]])"
proof -
  have h: "\<bar>- (43 / 2) :: rat\<bar> < 10 ^ 21" by simp
  have d: "(if - (43 / 2) < (0::rat) then ''-'' else [])
             @ digitsOf (nat \<lfloor>\<bar>- (43 / 2) :: rat\<bar> * 10 + 1 / 2\<rfloor> div 10)
             @ ''.'' @ digitsOf (nat \<lfloor>\<bar>- (43 / 2) :: rat\<bar> * 10 + 1 / 2\<rfloor> mod 10) = ''-21.5''"
    by code_simp
  note t = setTargetTemperature_command [of "\<lambda>q. []" "\<lambda>d n fs. None" controller "VNumber (Num 20)"
      "- (43 / 2)"]
  from t h d have "toFixed1 (\<lambda>q. []) (Number (VNumber (Num (- (43 / 2))))) = ''-21.5''"
    by (simp del: digitsOf.simps)
  moreover from t have "setTargetTemperature (\<lambda>q. []) (\<lambda>d n fs. None) controller (VNumber (Num 20))
       = (Resolved, [SetStatus ''d1'' hall [(''stemp'', ''20.0''), (''mode'', ''manual''), (''units'', ''C'')]])"
    by (simp add: controller_def cached_def heater_def del: digitsOf.simps)
  ultimately show ?thesis using h by simp
qed

text \<open>
  C6. Writing a value to the target state maps HEAT to \<open>manual\<close>, AUTO to \<open>auto\<close> and
  anything else to \<open>off\<close>, and sends one command whose only field is that mode. The
  handler's promise resolves whether or not the command fails; when it fails, the
  failure is logged.
\<close>

theorem setTargetHeatingCoolingState_command:
  "modeOf (VNumber TargetHeatingCoolingState_HEAT) = ''manual''
   \<and> modeOf (VNumber TargetHeatingCoolingState_AUTO) = ''auto''
   \<and> (v \<noteq> VNumber TargetHeatingCoolingState_HEAT \<and> v \<noteq> VNumber TargetHeatingCoolingState_AUTO
        \<longrightarrow> modeOf v = ''off'')
   \<and> setTargetHeatingCoolingState setStatus r v
       = (Resolved,
          SetStatus (dev_id (ctx_device (r_accessory r))) (r_node r) [(''mode'', modeOf v)]
          # (case setStatus (dev_id (ctx_device (r_accessory r))) (r_node r) [(''mode'', modeOf v)] of
               None \<Rightarrow> []
             | Some error \<Rightarrow> [LogError [S ''Failed to set target heating/cooling state:'', E error]]))"
  by (simp add: modeOf_def setTargetHeatingCoolingState_def Let_def
      TargetHeatingCoolingState_HEAT_def TargetHeatingCoolingState_AUTO_def split: option.splits)

theorem setTargetHeatingCoolingState_command_witness:
  "(VNumber (Num 2) \<noteq> VNumber TargetHeatingCoolingState_HEAT
      \<and> VNumber (Num 2) \<noteq> VNumber TargetHeatingCoolingState_AUTO)
   \<and> setTargetHeatingCoolingState (\<lambda>d n fs. Some timeout) controller (VNumber (Num 2))
       = (Resolved, [SetStatus ''d1'' hall [(''mode'', ''off'')],
                     LogError [S ''Failed to set target heating/cooling state:'', E timeout]])"
proof -
  have h: "VNumber (Num 2) \<noteq> VNumber TargetHeatingCoolingState_HEAT
      \<and> VNumber (Num 2) \<noteq> VNumber TargetHeatingCoolingState_AUTO"
    by (simp add: TargetHeatingCoolingState_HEAT_def TargetHeatingCoolingState_AUTO_def)
  note t = setTargetHeatingCoolingState_command [of "VNumber (Num 2)" "\<lambda>d n fs. Some timeout" controller]
  from t h have m: "modeOf (VNumber (Num 2)) = ''off''" by blast
  from t have "setTargetHeatingCoolingState (\<lambda>d n fs. Some timeout) controller (VNumber (Num 2))
       = (Resolved, [SetStatus ''d1'' hall [(''mode'', ''off'')],
                     LogError [S ''Failed to set target heating/cooling state:'', E timeout]])"
    by (simp add: m controller_def cached_def heater_def)
  with h show ?thesis by simp
qed

end
